theory Spec2Isabelle
  imports Main
begin

section \<open>R-Memory: block segmentation, compression cache, swap planning and eviction\<close>

text \<open>
  A shallow embedding of the R-Memory extension (the compression engine of the
  repository). Mutable module-level variables become fields of a state record that is
  passed in and returned; files become finite maps from file names to contents; the
  language-model provider, the clock and the cancellation signal are parameters.
\<close>

subsection \<open>Primitives supplied by the platform\<close>

text \<open>
  \<^item> \<open>hashText\<close> is \<open>sha256(text).digest("hex").slice(0, 32)\<close>;
  \<^item> \<open>hash8\<close> is \<open>sha256(text).digest("hex").slice(0, 8)\<close>;
  \<^item> \<open>isoDate ts\<close> is \<open>new Date(ts).toISOString().slice(0, 10)\<close>,
    \<open>isoMinute ts\<close> is \<open>.slice(0, 16)\<close> and \<open>isoTime ts\<close> the whole string;
  \<^item> \<open>exceeds70 p m\<close> is the double-precision test \<open>p > m * 0.7\<close> of
    \<open>hardSplitText\<close>. The product is rounded, so at \<open>10 * p = 7 * m\<close> the test
    depends on the rounding; it is left to the platform.
\<close>

record platform =
  hashText :: "string \<Rightarrow> string"
  hash8 :: "string \<Rightarrow> string"
  isoDate :: "int \<Rightarrow> string"
  isoMinute :: "int \<Rightarrow> string"
  isoTime :: "int \<Rightarrow> string"
  exceeds70 :: "nat \<Rightarrow> nat \<Rightarrow> bool"

definition NL :: char where
  "NL = CHR 0x0A"

text \<open>\<open>Array.prototype.join\<close>.\<close>

fun join :: "string \<Rightarrow> string list \<Rightarrow> string" where
  "join sep [] = []"
| "join sep [x] = x"
| "join sep (x # y # ys) = x @ sep @ join sep (y # ys)"

text \<open>\<open>estimateTokens(text) = Math.ceil(text.length / 4)\<close>.\<close>

definition estimateTokens :: "string \<Rightarrow> nat" where
  "estimateTokens t = (length t + 3) div 4"

subsection \<open>Messages and their text\<close>

text \<open>
  A content block of a message. \<open>barguments\<close> is the result of
  \<open>JSON.stringify(b.arguments, null, 2)\<close>, \<open>None\<close> when it throws.
\<close>

record content_block =
  btype :: string
  btext :: string
  bthinking :: string
  bname :: string
  barguments :: "string option"

datatype content = CString string | CArray "content_block list" | CNone

text \<open>
  A message as the host delivers it: untyped in the source, so every field the code
  probes is present. A missing string field is the empty string (falsy in the source as
  well), \<open>tool_calls\<close> is the length of the array of that name (0 when it is absent),
  \<open>chunkText\<close> is the field \<open>_chunkText\<close> the hard split adds.
\<close>

record message =
  role :: string
  content :: content
  tool_calls :: nat
  tool_call_id :: string
  command :: string
  output_m :: string
  summary :: string
  chunkText :: "string option"

definition emptyMessage :: message where
  "emptyMessage = \<lparr> role = [], content = CNone, tool_calls = 0, tool_call_id = [],
     command = [], output_m = [], summary = [], chunkText = None \<rparr>"

text \<open>The truncation of long tool results and shell output.\<close>

definition truncateLong :: "string \<Rightarrow> string" where
  "truncateLong c =
     (if length c > 8000
      then take 4000 c @ [NL] @ ''...[truncated]...'' @ [NL] @ drop (length c - 2000) c
      else c)"

definition userParts :: "content_block \<Rightarrow> string list" where
  "userParts b =
     (if btype b = ''text'' \<and> btext b \<noteq> [] then [btext b] else []) @
     (if btype b = ''image'' then [''[Image: ~1200 tokens]''] else [])"

definition assistantParts :: "content_block \<Rightarrow> string list" where
  "assistantParts b =
     (if btype b = ''text'' then [btext b]
      else if btype b = ''thinking'' then
        (let t = bthinking b in
         if length t > 2000
         then [''[Thinking]: '' @ take 500 t @ [NL] @ ''...[truncated]...'' @ [NL]
                 @ drop (length t - 500) t]
         else [''[Thinking]: '' @ t])
      else if btype b = ''toolCall'' then
        [''[Tool: '' @ bname b @ '']'',
         (case barguments b of
            Some j \<Rightarrow> ''<PRESERVE_VERBATIM>'' @ [NL] @ j @ [NL] @ ''</PRESERVE_VERBATIM>''
          | None \<Rightarrow> ''[args]'')]
      else [])"

definition toolResultParts :: "content_block \<Rightarrow> string list" where
  "toolResultParts b =
     (if btype b = ''text'' \<and> btext b \<noteq> [] then [truncateLong (btext b)] else []) @
     (if btype b = ''image'' then [''[Image: ~1200 tokens]''] else [])"

definition stringContent :: "message \<Rightarrow> string list" where
  "stringContent msg = (case content msg of CString s \<Rightarrow> [s] | _ \<Rightarrow> [])"

definition extractMessageText :: "message \<Rightarrow> string" where
  "extractMessageText msg = join [NL]
     (if role msg = ''user'' then
        ''[Human]:'' #
          (case content msg of
             CString s \<Rightarrow> [s]
           | CArray bs \<Rightarrow> concat (map userParts bs)
           | CNone \<Rightarrow> [])
      else if role msg = ''assistant'' then
        ''[AI]:'' #
          (case content msg of
             CArray bs \<Rightarrow> concat (map assistantParts bs)
           | _ \<Rightarrow> [])
      else if role msg = ''toolResult'' then
        ''[Tool Result]:'' #
          (case content msg of
             CString c \<Rightarrow> [truncateLong c]
           | CArray bs \<Rightarrow> concat (map toolResultParts bs)
           | CNone \<Rightarrow> [])
      else if role msg = ''bashExecution'' then
        [''[Bash]:'', ''$ '' @ command msg, truncateLong (output_m msg)]
      else if role msg = ''compactionSummary'' then
        [''[Previous Compressed]:'', summary msg]
      else if role msg = ''branchSummary'' then
        [''[Branch Context]:'', summary msg]
      else if role msg = ''custom'' then
        ''[Custom]:'' # stringContent msg
      else
        (''['' @ (if role msg = [] then ''unknown'' else role msg) @ '']:'') # stringContent msg)"

subsection \<open>Blocks\<close>

record block =
  block_text :: string
  block_hash :: string
  block_tokens :: nat

record mblock = block +
  messages :: "message list"

text \<open>An entry of the compaction path: \<open>{index, id, message}\<close>.\<close>

record ientry =
  index :: nat
  id_e :: string
  message :: message

record eblock = block +
  entries :: "ientry list"
  firstEntryId :: string
  firstEntryIndex :: nat

definition messagesText :: "message list \<Rightarrow> string" where
  "messagesText ms = join [NL, NL] (map extractMessageText ms)"

definition finalizeBlock :: "platform \<Rightarrow> message list \<Rightarrow> mblock" where
  "finalizeBlock pf ms =
     (let text = messagesText ms
      in \<lparr> block_text = text, block_hash = hashText pf text,
           block_tokens = estimateTokens text, messages = ms \<rparr>)"

text \<open>
  \<open>finalizeEntryBlock\<close> reads \<open>entries[0]\<close>; every call site passes a non-empty
  list (lemma \<open>entryTurns_nonempty\<close> for the turns, the guards of the loop for the
  rest).
\<close>

definition finalizeEntryBlock :: "platform \<Rightarrow> ientry list \<Rightarrow> eblock" where
  "finalizeEntryBlock pf es =
     (let text = messagesText (map message es)
      in \<lparr> block_text = text, block_hash = hashText pf text,
           block_tokens = estimateTokens text,
           entries = es, firstEntryId = id_e (hd es), firstEntryIndex = index (hd es) \<rparr>)"

subsection \<open>Hard split of one long text\<close>

text \<open>
  \<open>remaining.lastIndexOf("\n", from)\<close>: the largest position at most \<open>from\<close> that
  holds the character, \<open>None\<close> for the source's \<open>-1\<close>.
\<close>

definition lastIndexOf :: "string \<Rightarrow> char \<Rightarrow> nat \<Rightarrow> nat option" where
  "lastIndexOf s c from =
     (case filter (\<lambda>i. s ! i = c) (rev [0 ..< min (Suc from) (length s)]) of
        [] \<Rightarrow> None
      | i # _ \<Rightarrow> Some i)"

definition splitPoint :: "platform \<Rightarrow> nat \<Rightarrow> string \<Rightarrow> nat" where
  "splitPoint pf maxChars remaining =
     (case lastIndexOf remaining NL maxChars of
        None \<Rightarrow> maxChars
      | Some newlinePos \<Rightarrow>
          if exceeds70 pf newlinePos maxChars then newlinePos + 1 else maxChars)"

text \<open>
  The \<open>while\<close> loop of \<open>hardSplitText\<close>, with its two variables. With
  \<open>maxChars = 0\<close> and a non-empty text the source never leaves the loop; here that is
  the value \<open>None\<close>.
\<close>

partial_function (option) hardSplitLoop ::
  "platform \<Rightarrow> nat \<Rightarrow> string list \<Rightarrow> string \<Rightarrow> string list option" where
  "hardSplitLoop pf maxChars chunks remaining =
     (if length remaining > maxChars
      then hardSplitLoop pf maxChars
             (chunks @ [take (splitPoint pf maxChars remaining) remaining])
             (drop (splitPoint pf maxChars remaining) remaining)
      else Some (if remaining \<noteq> [] then chunks @ [remaining] else chunks))"

declare hardSplitLoop.simps [code]

definition hardSplitText :: "platform \<Rightarrow> string \<Rightarrow> nat \<Rightarrow> string list option" where
  "hardSplitText pf text maxChars = hardSplitLoop pf maxChars [] text"

subsection \<open>Tool invocations and tool results\<close>

definition hasToolUse :: "message \<Rightarrow> bool" where
  "hasToolUse msg =
     ((case content msg of CArray bs \<Rightarrow> list_ex (\<lambda>b. btype b = ''toolCall'') bs | _ \<Rightarrow> False)
      \<or> (case content msg of CArray bs \<Rightarrow> list_ex (\<lambda>b. btype b = ''tool_use'') bs | _ \<Rightarrow> False)
      \<or> tool_calls msg > 0)"

definition hasToolResult :: "message \<Rightarrow> bool" where
  "hasToolResult msg =
     (role msg = ''toolResult''
      \<or> (case content msg of CArray bs \<Rightarrow> list_ex (\<lambda>b. btype b = ''tool_result'') bs | _ \<Rightarrow> False)
      \<or> (role msg = ''tool'' \<and> tool_call_id msg \<noteq> []))"

subsection \<open>Configuration\<close>

record config =
  evictTrigger :: nat
  compressTrigger :: nat
  blockSize :: nat
  minCompressChars :: nat
  minSwapTokens :: nat
  maxParallelCompressions :: nat
  enabled :: bool

definition DEFAULT_CONFIG :: config where
  "DEFAULT_CONFIG = \<lparr> evictTrigger = 80000, compressTrigger = 36000, blockSize = 4000,
     minCompressChars = 200, minSwapTokens = 50, maxParallelCompressions = 4,
     enabled = True \<rparr>"

text \<open>\<open>config.blockSize || 4000\<close> and \<open>config.minSwapTokens || 50\<close>.\<close>

definition maxTokensOf :: "config \<Rightarrow> nat" where
  "maxTokensOf cfg = (if blockSize cfg = 0 then 4000 else blockSize cfg)"

definition minTokensOf :: "config \<Rightarrow> nat" where
  "minTokensOf cfg = (if minSwapTokens cfg = 0 then 50 else minSwapTokens cfg)"

subsection \<open>Block grouping from flat messages (turn-completion path)\<close>

text \<open>Step 1 of \<open>groupMessagesIntoBlocks\<close>: the loop that groups messages into turns.\<close>

fun messageTurns :: "message list \<Rightarrow> message list list \<Rightarrow> message list \<Rightarrow> message list list" where
  "messageTurns [] turns currentMsgs =
     (if currentMsgs \<noteq> [] then turns @ [currentMsgs] else turns)"
| "messageTurns (msg # rest) turns currentMsgs =
     (if role msg = ''compactionSummary'' \<or> role msg = ''branchSummary''
      then messageTurns rest turns currentMsgs
      else if role msg = ''user'' \<and> currentMsgs \<noteq> []
      then messageTurns rest (turns @ [currentMsgs]) [msg]
      else messageTurns rest turns (currentMsgs @ [msg]))"

definition chunkMessageBlock :: "platform \<Rightarrow> message \<Rightarrow> string \<Rightarrow> mblock" where
  "chunkMessageBlock pf msg chunk =
     \<lparr> block_text = chunk, block_hash = hashText pf chunk,
       block_tokens = estimateTokens chunk,
       messages = [msg\<lparr> chunkText := Some chunk \<rparr>] \<rparr>"

text \<open>
  The loop over the messages of an oversized turn, with the variables \<open>blocks\<close>,
  \<open>blockMsgs\<close> and \<open>blockTokens\<close>; the last equation is the flush after the loop.
\<close>

fun splitMessages ::
  "platform \<Rightarrow> nat \<Rightarrow> nat \<Rightarrow> message list \<Rightarrow> mblock list \<Rightarrow> message list \<Rightarrow> nat
     \<Rightarrow> mblock list option" where
  "splitMessages pf maxTokens maxChars [] blocks blockMsgs blockTokens =
     Some (if blockMsgs \<noteq> [] then blocks @ [finalizeBlock pf blockMsgs] else blocks)"
| "splitMessages pf maxTokens maxChars (msg # rest) blocks blockMsgs blockTokens =
     (let msgText = extractMessageText msg;
          msgTokens = estimateTokens msgText
      in if msgTokens > maxTokens then
           (case hardSplitText pf msgText maxChars of
              None \<Rightarrow> None
            | Some chunks \<Rightarrow>
                splitMessages pf maxTokens maxChars rest
                  ((if blockMsgs \<noteq> [] then blocks @ [finalizeBlock pf blockMsgs] else blocks)
                     @ map (chunkMessageBlock pf msg) chunks)
                  [] 0)
         else if blockTokens + msgTokens > maxTokens \<and> blockMsgs \<noteq> [] then
           splitMessages pf maxTokens maxChars rest
             (blocks @ [finalizeBlock pf blockMsgs]) [msg] msgTokens
         else
           splitMessages pf maxTokens maxChars rest
             blocks (blockMsgs @ [msg]) (blockTokens + msgTokens))"

text \<open>The loop over the turns.\<close>

fun splitMessageTurns ::
  "platform \<Rightarrow> nat \<Rightarrow> nat \<Rightarrow> message list list \<Rightarrow> mblock list \<Rightarrow> mblock list option" where
  "splitMessageTurns pf maxTokens maxChars [] blocks = Some blocks"
| "splitMessageTurns pf maxTokens maxChars (turnMsgs # rest) blocks =
     (if estimateTokens (messagesText turnMsgs) \<le> maxTokens
      then splitMessageTurns pf maxTokens maxChars rest (blocks @ [finalizeBlock pf turnMsgs])
      else (case splitMessages pf maxTokens maxChars turnMsgs blocks [] 0 of
              None \<Rightarrow> None
            | Some blocks' \<Rightarrow> splitMessageTurns pf maxTokens maxChars rest blocks'))"

definition groupMessagesIntoBlocks :: "platform \<Rightarrow> config \<Rightarrow> message list \<Rightarrow> mblock list option" where
  "groupMessagesIntoBlocks pf cfg msgs =
     (let turns = messageTurns msgs [] [];
          maxTokens = maxTokensOf cfg;
          maxChars = maxTokens * 4
      in splitMessageTurns pf maxTokens maxChars turns [])"

subsection \<open>Block grouping from branch entries (compaction path)\<close>

text \<open>
  A branch entry of the host's log. \<open>be_message\<close> is \<open>entry.message\<close>,
  \<open>be_data\<close> is \<open>entry.data\<close> rendered as the string the source makes of it
  (\<open>None\<close> when it is falsy), \<open>be_content\<close> and \<open>be_summary\<close> are
  \<open>entry.content || ""\<close> and \<open>entry.summary || ""\<close>.
\<close>

record branch_entry =
  be_id :: string
  be_type :: string
  be_message :: "message option"
  be_customType :: string
  be_data :: "string option"
  be_content :: string
  be_summary :: string

definition METADATA_TYPES :: "string list" where
  "METADATA_TYPES = [''model-snapshot'', ''openclaw.cache-ttl'', ''openclaw.metadata'']"

definition getMessageFromEntry :: "branch_entry \<Rightarrow> message option" where
  "getMessageFromEntry entry =
     (if be_type entry = ''message'' \<and> be_message entry \<noteq> None then be_message entry
      else if be_type entry = ''custom'' then
        (if be_customType entry \<in> set METADATA_TYPES then None
         else (case be_data entry of
                 Some d \<Rightarrow> Some (emptyMessage\<lparr> role := ''assistant'', content := CString d \<rparr>)
               | None \<Rightarrow> None))
      else if be_type entry = ''custom_message'' then
        Some (emptyMessage\<lparr> role := ''custom'', content := CString (be_content entry) \<rparr>)
      else if be_type entry = ''compaction'' then
        Some (emptyMessage\<lparr> role := ''compactionSummary'', summary := be_summary entry \<rparr>)
      else if be_type entry = ''branch_summary'' then
        Some (emptyMessage\<lparr> role := ''branchSummary'', summary := be_summary entry \<rparr>)
      else None)"

text \<open>
  Step 1 of \<open>groupEntriesIntoBlocks\<close>: the loop from \<open>i = startIndex\<close> on, over the
  entries that remain, with the variables \<open>turns\<close> and \<open>currentEntries\<close>.
\<close>

fun entryTurns ::
  "branch_entry list \<Rightarrow> nat \<Rightarrow> ientry list list \<Rightarrow> ientry list \<Rightarrow> ientry list list" where
  "entryTurns [] i turns currentEntries =
     (if currentEntries \<noteq> [] then turns @ [currentEntries] else turns)"
| "entryTurns (entry # rest) i turns currentEntries =
     (case getMessageFromEntry entry of
        None \<Rightarrow> entryTurns rest (Suc i) turns currentEntries
      | Some msg \<Rightarrow>
          if role msg = ''compactionSummary'' \<or> role msg = ''branchSummary''
          then entryTurns rest (Suc i) turns currentEntries
          else if role msg = ''user'' \<and> currentEntries \<noteq> [] then
            (if hasToolResult msg \<and> hasToolUse (message (last currentEntries))
             then entryTurns rest (Suc i) turns
                    (currentEntries @ [\<lparr> index = i, id_e = be_id entry, message = msg \<rparr>])
             else entryTurns rest (Suc i) (turns @ [currentEntries])
                    [\<lparr> index = i, id_e = be_id entry, message = msg \<rparr>])
          else entryTurns rest (Suc i) turns
                 (currentEntries @ [\<lparr> index = i, id_e = be_id entry, message = msg \<rparr>]))"

definition chunkEntryBlock :: "platform \<Rightarrow> ientry \<Rightarrow> string \<Rightarrow> eblock" where
  "chunkEntryBlock pf entry chunk =
     \<lparr> block_text = chunk, block_hash = hashText pf chunk,
       block_tokens = estimateTokens chunk,
       entries = [entry], firstEntryId = id_e entry, firstEntryIndex = index entry \<rparr>"

text \<open>
  The look-ahead of the inner loop: the tool results that directly follow an entry with
  a tool invocation (the \<open>while\<close> loop that advances \<open>j\<close>).
\<close>

definition pairedResults :: "ientry \<Rightarrow> ientry list \<Rightarrow> ientry list" where
  "pairedResults entry rest =
     (if hasToolUse (message entry)
      then takeWhile (\<lambda>e. hasToolResult (message e)) rest
      else [])"

definition entryTokens :: "ientry \<Rightarrow> nat" where
  "entryTokens e = estimateTokens (extractMessageText (message e))"

definition flushEntries :: "platform \<Rightarrow> eblock list \<Rightarrow> ientry list \<Rightarrow> eblock list" where
  "flushEntries pf blocks blockEntries =
     (if blockEntries \<noteq> [] then blocks @ [finalizeEntryBlock pf blockEntries] else blocks)"

text \<open>
  The loop over the entries of an oversized turn, with the variables \<open>blocks\<close>,
  \<open>blockEntries\<close> and \<open>blockTokens\<close>; the first equation is the flush after the
  loop.
\<close>

function splitEntries ::
  "platform \<Rightarrow> nat \<Rightarrow> nat \<Rightarrow> ientry list \<Rightarrow> eblock list \<Rightarrow> ientry list \<Rightarrow> nat
     \<Rightarrow> eblock list option" where
  "splitEntries pf maxTokens maxChars [] blocks blockEntries blockTokens =
     Some (flushEntries pf blocks blockEntries)"
| "splitEntries pf maxTokens maxChars (entry # rest) blocks blockEntries blockTokens =
     (let msgText = extractMessageText (message entry);
          msgTokens = estimateTokens msgText;
          results = pairedResults entry rest;
          pairedEntries = entry # results;
          pairedTokens = msgTokens + sum_list (map entryTokens results);
          rest' = drop (length results) rest
      in if pairedTokens > maxTokens \<and> length pairedEntries > 1 then
           splitEntries pf maxTokens maxChars rest'
             (flushEntries pf blocks blockEntries @ [finalizeEntryBlock pf pairedEntries]) [] 0
         else if pairedTokens > maxTokens \<and> length pairedEntries = 1 then
           (case hardSplitText pf msgText maxChars of
              None \<Rightarrow> None
            | Some chunks \<Rightarrow>
                splitEntries pf maxTokens maxChars rest'
                  (flushEntries pf blocks blockEntries @ map (chunkEntryBlock pf entry) chunks)
                  [] 0)
         else if blockTokens + pairedTokens > maxTokens \<and> blockEntries \<noteq> [] then
           splitEntries pf maxTokens maxChars rest'
             (blocks @ [finalizeEntryBlock pf blockEntries]) pairedEntries pairedTokens
         else
           splitEntries pf maxTokens maxChars rest'
             blocks (blockEntries @ pairedEntries) (blockTokens + pairedTokens))"
  by pat_completeness auto
termination
  by (relation "measure (\<lambda>(pf, maxTokens, maxChars, es, blocks, blockEntries, blockTokens). length es)")
    auto

fun splitEntryTurns ::
  "platform \<Rightarrow> nat \<Rightarrow> nat \<Rightarrow> ientry list list \<Rightarrow> eblock list \<Rightarrow> eblock list option" where
  "splitEntryTurns pf maxTokens maxChars [] blocks = Some blocks"
| "splitEntryTurns pf maxTokens maxChars (turnEntries # rest) blocks =
     (if estimateTokens (messagesText (map message turnEntries)) \<le> maxTokens
      then splitEntryTurns pf maxTokens maxChars rest (blocks @ [finalizeEntryBlock pf turnEntries])
      else (case splitEntries pf maxTokens maxChars turnEntries blocks [] 0 of
              None \<Rightarrow> None
            | Some blocks' \<Rightarrow> splitEntryTurns pf maxTokens maxChars rest blocks'))"

definition groupEntriesIntoBlocks ::
  "platform \<Rightarrow> config \<Rightarrow> branch_entry list \<Rightarrow> nat \<Rightarrow> eblock list option" where
  "groupEntriesIntoBlocks pf cfg branchEntries startIndex =
     (let turns = entryTurns (drop startIndex branchEntries) startIndex [] [];
          maxTokens = maxTokensOf cfg;
          maxChars = maxTokens * 4
      in splitEntryTurns pf maxTokens maxChars turns [])"

subsection \<open>Engine state\<close>

record cache_entry =
  compressed :: string
  tokensRaw :: nat
  tokensCompressed :: nat

record history_entry = cache_entry +
  timestamp :: int

record queue_item =
  q_text :: string
  q_hash :: string

text \<open>
  The module-level variables, and the files the engine writes: the raw archive
  (\<open>config.archiveDir\<close>), the archive of evicted history (\<open>memory/archive\<close>), the
  history file of each session and the cache file. \<open>completeSimple\<close> tells whether the
  provider client could be loaded, \<open>resolvedApiKey\<close> is the key or \<open>None\<close> for
  \<open>null\<close>. File operations are taken to succeed; logging, usage statistics and the
  collection of training pairs are left out.
\<close>

record state =
  config :: config
  completeSimple :: bool
  resolvedApiKey :: "string option"
  currentSessionId :: "string option"
  compactionHistory :: "history_entry list"
  messageCache :: "string \<rightharpoonup> cache_entry"
  compressionQueue :: "queue_item list"
  deferredCompactionMinBlocks :: nat
  rawArchive :: "string \<rightharpoonup> string"
  memoryArchive :: "string \<rightharpoonup> string"
  historyFiles :: "string \<rightharpoonup> history_entry list"
  cacheFile :: "(string \<rightharpoonup> cache_entry) option"

text \<open>The test \<open>!completeSimple || !resolvedApiKey\<close>, negated.\<close>

definition capable :: "state \<Rightarrow> bool" where
  "capable st =
     (completeSimple st \<and> (case resolvedApiKey st of Some k \<Rightarrow> k \<noteq> [] | None \<Rightarrow> False))"

text \<open>Decimal rendering of a number in a template string.\<close>

fun showNat :: "nat \<Rightarrow> string" where
  "showNat n =
     (if n < 10 then [char_of (48 + n)]
      else showNat (n div 10) @ [char_of (48 + n mod 10)])"

subsection \<open>Archive and background queue\<close>

definition archiveRawBlock :: "string \<Rightarrow> string \<Rightarrow> state \<Rightarrow> state" where
  "archiveRawBlock hash rawText st =
     (let filepath = hash @ ''.md''
      in if rawArchive st filepath = None
         then st\<lparr> rawArchive := (rawArchive st)(filepath \<mapsto> rawText) \<rparr>
         else st)"

text \<open>
  \<open>processQueue\<close>: background compression is switched off in the source (``Fix 3''),
  the loop only archives what it takes from the queue.
\<close>

function processQueue :: "state \<Rightarrow> state" where
  "processQueue st =
     (case compressionQueue st of
        [] \<Rightarrow> st
      | item # rest \<Rightarrow>
          processQueue (archiveRawBlock (q_hash item) (q_text item)
                          (st\<lparr> compressionQueue := rest \<rparr>)))"
  by pat_completeness auto
termination
  by (relation "measure (\<lambda>st. length (compressionQueue st))")
    (auto simp: archiveRawBlock_def Let_def)

definition queueBlock :: "'a block_scheme \<Rightarrow> state \<Rightarrow> state" where
  "queueBlock blk st =
     (if \<not> enabled (config st) \<or> \<not> capable st then st
      else if messageCache st (block_hash blk) \<noteq> None then st
      else if length (block_text blk) < minCompressChars (config st) then
        st\<lparr> messageCache := (messageCache st)(block_hash blk \<mapsto>
              \<lparr> compressed = block_text blk, tokensRaw = block_tokens blk,
                tokensCompressed = block_tokens blk \<rparr>) \<rparr>
      else
        processQueue
          (st\<lparr> compressionQueue :=
                 compressionQueue st @ [\<lparr> q_text = block_text blk, q_hash = block_hash blk \<rparr>],
               deferredCompactionMinBlocks :=
                 (if deferredCompactionMinBlocks st > 0 then 0
                  else deferredCompactionMinBlocks st) \<rparr>))"

subsection \<open>Compression of one block\<close>

text \<open>
  What the provider call does: it throws, it answers with \<open>stopReason === "error"\<close>,
  or it answers with content, whose text parts joined by a newline are the argument of
  \<open>Reply\<close>.
\<close>

datatype response = Throws | ErrorStop | Reply string

text \<open>
  The world around one compaction request: the provider, the cancellation signal as
  the handler finds it at its successive polls, and the clock at its two reads.
\<close>

record env =
  provider :: "string \<Rightarrow> response"
  aborted :: "nat \<Rightarrow> bool"
  nowPreserve :: int
  nowAppend :: int

text \<open>
  \<open>compressSingleBlock\<close>; \<open>None\<close> is the source's \<open>null\<close>. The routing of
  \<open>resolveCamouflageModel\<close> always carries a key once \<open>resolvedApiKey\<close> is set, so
  its test cannot fail after the first one. The test
  \<open>compressedTokens >= rawTokens * 0.95\<close> is written over the integers.
\<close>

definition compressSingleBlock :: "env \<Rightarrow> state \<Rightarrow> string \<Rightarrow> cache_entry option" where
  "compressSingleBlock ev st rawText =
     (if \<not> capable st then None
      else
        (let rawTokens = estimateTokens rawText
         in if length rawText < minCompressChars (config st) then
              Some \<lparr> compressed = rawText, tokensRaw = rawTokens, tokensCompressed = rawTokens \<rparr>
            else
              (case provider ev rawText of
                 Throws \<Rightarrow> None
               | ErrorStop \<Rightarrow> None
               | Reply compressedText \<Rightarrow>
                   (let compressedTokens = estimateTokens compressedText
                    in if 20 * compressedTokens \<ge> 19 * rawTokens then
                         Some \<lparr> compressed = rawText, tokensRaw = rawTokens,
                                tokensCompressed = rawTokens \<rparr>
                       else
                         Some \<lparr> compressed = compressedText, tokensRaw = rawTokens,
                                tokensCompressed = compressedTokens \<rparr>))))"

subsection \<open>FIFO eviction\<close>

definition archiveName :: "platform \<Rightarrow> history_entry \<Rightarrow> string" where
  "archiveName pf blk =
     ''rmem-'' @ isoDate pf (timestamp blk) @ ''-'' @ hash8 pf (compressed blk) @ ''.md''"

definition archiveHeader :: "platform \<Rightarrow> state \<Rightarrow> history_entry \<Rightarrow> string" where
  "archiveHeader pf st blk =
     ''# R-Memory Archive Block'' @ [NL] @
     ''- **Date:** '' @ isoTime pf (timestamp blk) @ [NL] @
     ''- **Session:** '' @
        (case currentSessionId st of
           None \<Rightarrow> ''unknown''
         | Some s \<Rightarrow> if s = [] then ''unknown'' else s) @ [NL] @
     ''- **Tokens:** '' @ showNat (tokensCompressed blk) @ '' compressed (was '' @
        showNat (tokensRaw blk) @ '' raw)'' @ [NL, NL] @ ''---'' @ [NL, NL]"

text \<open>
  \<open>archiveEvictedBlock\<close>. The time stamps are those that \<open>Date.now()\<close> gave, for
  which the date functions do not throw.
\<close>

definition archiveEvictedBlock :: "platform \<Rightarrow> history_entry \<Rightarrow> state \<Rightarrow> state" where
  "archiveEvictedBlock pf blk st =
     (let filename = archiveName pf blk
      in if memoryArchive st filename = None
         then st\<lparr> memoryArchive :=
                (memoryArchive st)(filename \<mapsto> archiveHeader pf st blk @ compressed blk) \<rparr>
         else st)"

definition overheadPerBlock :: nat where
  "overheadPerBlock = 15"

definition baseOverhead :: nat where
  "baseOverhead = 20"

definition historyTotal :: "history_entry list \<Rightarrow> nat" where
  "historyTotal h = baseOverhead + foldl (\<lambda>sum e. sum + tokensCompressed e + overheadPerBlock) 0 h"

text \<open>The \<open>while\<close> loop of \<open>applyFifoEviction\<close>, with the variable \<open>totalTokens\<close>.\<close>

function evictLoop :: "platform \<Rightarrow> nat \<Rightarrow> state \<Rightarrow> nat \<times> state" where
  "evictLoop pf totalTokens st =
     (case compactionHistory st of
        [] \<Rightarrow> (totalTokens, st)
      | oldest # rest \<Rightarrow>
          if totalTokens > evictTrigger (config st)
          then evictLoop pf (totalTokens - (tokensCompressed oldest + overheadPerBlock))
                 (archiveEvictedBlock pf oldest (st\<lparr> compactionHistory := rest \<rparr>))
          else (totalTokens, st))"
  by pat_completeness auto
termination
  by (relation "measure (\<lambda>(pf, totalTokens, st). length (compactionHistory st))")
    (auto simp: archiveEvictedBlock_def Let_def)

definition applyFifoEviction :: "platform \<Rightarrow> state \<Rightarrow> nat \<times> state" where
  "applyFifoEviction pf st = evictLoop pf (historyTotal (compactionHistory st)) st"

subsection \<open>The compaction handler\<close>

text \<open>
  The event of the host: \<open>tokensBefore\<close> is \<open>preparation?.tokensBefore || 0\<close>, an
  absent \<open>branchEntries\<close> is the empty list (the source treats both alike).
\<close>

record event =
  tokensBefore :: nat
  branchEntries :: "branch_entry list"

datatype handler_result =
  Undefined
| Cancel
| Compaction (c_summary: string) (c_firstKeptEntryId: string) (c_tokensBefore: nat)

definition detectSessionId :: "branch_entry list \<Rightarrow> string" where
  "detectSessionId es =
     (case es of
        [] \<Rightarrow> ''default''
      | e # _ \<Rightarrow> if be_id e = [] then ''default'' else be_id e)"

text \<open>Session tracking, with \<open>loadCompactionHistory\<close>.\<close>

definition trackSession :: "branch_entry list \<Rightarrow> state \<Rightarrow> state" where
  "trackSession es st =
     (let sessionId = detectSessionId es
      in if currentSessionId st \<noteq> Some sessionId
         then st\<lparr> currentSessionId := Some sessionId,
                 compactionHistory :=
                   (case historyFiles st sessionId of Some h \<Rightarrow> h | None \<Rightarrow> []) \<rparr>
         else st)"

text \<open>The backward search for the last entry of type \<open>compaction\<close>; \<open>None\<close> is \<open>-1\<close>.\<close>

definition prevCompactionIndex :: "branch_entry list \<Rightarrow> nat option" where
  "prevCompactionIndex es =
     (case filter (\<lambda>i. be_type (es ! i) = ''compaction'') (rev [0 ..< length es]) of
        [] \<Rightarrow> None
      | i # _ \<Rightarrow> Some i)"

definition startIdxOf :: "branch_entry list \<Rightarrow> nat" where
  "startIdxOf es = (case prevCompactionIndex es of None \<Rightarrow> 0 | Some i \<Rightarrow> i + 1)"

text \<open>
  The estimate of the planner for a block: the cached compressed size, or
  \<open>Math.ceil(block.tokens * 0.6)\<close>.
\<close>

definition estimatedCompressed :: "(string \<rightharpoonup> cache_entry) \<Rightarrow> 'a block_scheme \<Rightarrow> nat" where
  "estimatedCompressed cache blk =
     (case cache (block_hash blk) of
        Some cached \<Rightarrow> tokensCompressed cached
      | None \<Rightarrow> (3 * block_tokens blk + 4) div 5)"

definition savings :: "(string \<rightharpoonup> cache_entry) \<Rightarrow> 'a block_scheme \<Rightarrow> int" where
  "savings cache blk = int (block_tokens blk) - int (estimatedCompressed cache blk)"

text \<open>
  The walk from the oldest block: the blocks from position \<open>i\<close> on, with the variables
  \<open>totalSaved\<close> and \<open>blocksToSwap\<close>.
\<close>

fun planWalk ::
  "(string \<rightharpoonup> cache_entry) \<Rightarrow> int \<Rightarrow> 'a block_scheme list \<Rightarrow> nat \<Rightarrow> int \<Rightarrow> nat
     \<Rightarrow> int \<times> nat" where
  "planWalk cache overflow [] i totalSaved blocksToSwap = (totalSaved, blocksToSwap)"
| "planWalk cache overflow (blk # rest) i totalSaved blocksToSwap =
     (if totalSaved \<ge> overflow then (totalSaved, blocksToSwap)
      else planWalk cache overflow rest (i + 1) (totalSaved + savings cache blk) (i + 1))"

text \<open>
  The swap count after the two adjustments that follow the walk; the handler cancels
  when it is 0.
\<close>

definition swapCount :: "(string \<rightharpoonup> cache_entry) \<Rightarrow> int \<Rightarrow> 'a block_scheme list \<Rightarrow> nat" where
  "swapCount cache overflow blocks =
     (let walked = snd (planWalk cache overflow blocks 0 0 0);
          blocksToSwap = (if walked = 0 then 1 else walked)
      in if blocksToSwap \<ge> length blocks then length blocks - 1 else blocksToSwap)"

record slot =
  s_hash :: string
  s_result :: "cache_entry option"

record missed_block = block +
  slotIndex :: nat

text \<open>
  The loop over the blocks to swap: archive the raw text, look the block up in the
  cache, fill \<open>compressedSlots\<close> and \<open>missedBlocks\<close>.
\<close>

fun lookupSwapped ::
  "eblock list \<Rightarrow> state \<Rightarrow> slot list \<Rightarrow> missed_block list
     \<Rightarrow> state \<times> slot list \<times> missed_block list" where
  "lookupSwapped [] st compressedSlots missedBlocks = (st, compressedSlots, missedBlocks)"
| "lookupSwapped (blk # rest) st compressedSlots missedBlocks =
     (let st' = archiveRawBlock (block_hash blk) (block_text blk) st
      in case messageCache st' (block_hash blk) of
           Some cached \<Rightarrow>
             lookupSwapped rest st'
               (compressedSlots @ [\<lparr> s_hash = block_hash blk, s_result = Some cached \<rparr>])
               missedBlocks
         | None \<Rightarrow>
             lookupSwapped rest st'
               (compressedSlots @ [\<lparr> s_hash = block_hash blk, s_result = None \<rparr>])
               (missedBlocks @ [\<lparr> block_text = block_text blk, block_hash = block_hash blk,
                   block_tokens = block_tokens blk, slotIndex = length compressedSlots \<rparr>]))"

text \<open>
  What is stored for a missed block: the result of \<open>compressSingleBlock\<close>, or the raw
  text when that is \<open>null\<close>.
\<close>

definition onDemandResult :: "env \<Rightarrow> state \<Rightarrow> 'a block_scheme \<Rightarrow> cache_entry" where
  "onDemandResult ev st b =
     (case compressSingleBlock ev st (block_text b) of
        Some r \<Rightarrow> r
      | None \<Rightarrow> \<lparr> compressed = block_text b, tokensRaw = block_tokens b,
                  tokensCompressed = block_tokens b \<rparr>)"

definition storeResult :: "env \<Rightarrow> state \<times> slot list \<Rightarrow> missed_block \<Rightarrow> state \<times> slot list" where
  "storeResult ev acc b =
     (let st = fst acc; slots = snd acc; result = onDemandResult ev st b
      in (st\<lparr> messageCache := (messageCache st)(block_hash b \<mapsto> result) \<rparr>,
          slots[slotIndex b := \<lparr> s_hash = block_hash b, s_result = Some result \<rparr>]))"

text \<open>
  The loop over the batches of missed blocks; \<open>n\<close> counts the polls of the signal.
  \<open>Inl\<close> is the return on cancellation. With \<open>maxParallelCompressions = 0\<close> the
  source never leaves the loop unless the signal fires: the value \<open>None\<close>.
\<close>

partial_function (option) compressMissed ::
  "env \<Rightarrow> nat \<Rightarrow> missed_block list \<Rightarrow> nat \<Rightarrow> nat \<Rightarrow> state \<times> slot list
     \<Rightarrow> (state + state \<times> slot list \<times> nat) option" where
  "compressMissed ev maxParallel missedBlocks i n acc =
     (if i < length missedBlocks then
        (if aborted ev n then Some (Inl (fst acc))
         else compressMissed ev maxParallel missedBlocks (i + maxParallel) (Suc n)
                (foldl (storeResult ev) acc (take maxParallel (drop i missedBlocks))))
      else Some (Inr (fst acc, snd acc, n)))"

declare compressMissed.simps [code]

text \<open>The replacement payload: all history entries as dated sections.\<close>

definition renderHistory :: "platform \<Rightarrow> history_entry list \<Rightarrow> string" where
  "renderHistory pf h =
     join [NL]
       ([''# R-Memory: Compressed Conversation History'',
         ''_'' @ showNat (length h) @ '' blocks | ~'' @
           showNat (sum_list (map tokensCompressed h)) @ '' tokens (was ~'' @
           showNat (sum_list (map tokensRaw h)) @ '' raw)_'',
         []]
        @ concat (map (\<lambda>(i, e).
            [''## Block '' @ showNat (i + 1) @ '' ['' @ isoMinute pf (timestamp e) @ '']'',
             compressed e, []])
            (enumerate 0 h)))"

definition separator :: string where
  "separator = [NL, NL] @ ''---'' @ [NL, NL]"

definition compressedParts :: "slot list \<Rightarrow> string list" where
  "compressedParts slots =
     concat (map (\<lambda>s. case s_result s of Some r \<Rightarrow> [compressed r] | None \<Rightarrow> []) slots)"

definition saveCompactionHistory :: "state \<Rightarrow> state" where
  "saveCompactionHistory st =
     st\<lparr> historyFiles := (historyFiles st)
          ((case currentSessionId st of
              None \<Rightarrow> ''default''
            | Some s \<Rightarrow> if s = [] then ''default'' else s) \<mapsto> compactionHistory st) \<rparr>"

definition saveMessageCache :: "state \<Rightarrow> state" where
  "saveMessageCache st = st\<lparr> cacheFile := Some (messageCache st) \<rparr>"

text \<open>
  The first-time preservation of the previous summary (\<open>prevEntry.summary\<close>, the
  empty string when it is missing).
\<close>

definition preservePrevious :: "env \<Rightarrow> branch_entry list \<Rightarrow> state \<Rightarrow> state" where
  "preservePrevious ev es st =
     (case prevCompactionIndex es of
        None \<Rightarrow> st
      | Some i \<Rightarrow>
          if compactionHistory st = [] \<and> be_summary (es ! i) \<noteq> []
          then st\<lparr> compactionHistory := compactionHistory st @
                 [\<lparr> compressed = be_summary (es ! i),
                    tokensRaw = estimateTokens (be_summary (es ! i)),
                    tokensCompressed = estimateTokens (be_summary (es ! i)),
                    timestamp = nowPreserve ev - 1 \<rparr>] \<rparr>
          else st)"

text \<open>
  The end of \<open>handleBeforeCompact\<close>: the new history entry, the eviction, the two
  saves and the payload.
\<close>

definition assemble ::
  "platform \<Rightarrow> env \<Rightarrow> event \<Rightarrow> eblock list \<Rightarrow> string \<Rightarrow> state \<Rightarrow> slot list
     \<Rightarrow> handler_result \<times> state" where
  "assemble pf ev evt toSwap firstKeptEntryId st slots =
     (let newBlock = join separator (compressedParts slots);
          st1 = st\<lparr> compactionHistory := compactionHistory st @
                  [\<lparr> compressed = newBlock,
                     tokensRaw = sum_list (map block_tokens toSwap),
                     tokensCompressed = estimateTokens newBlock,
                     timestamp = nowAppend ev \<rparr>] \<rparr>;
          st2 = saveMessageCache (saveCompactionHistory (snd (applyFifoEviction pf st1)))
      in (Compaction (renderHistory pf (compactionHistory st2)) firstKeptEntryId
            (tokensBefore evt), st2))"

text \<open>
  The second half of \<open>handleBeforeCompact\<close>, from the preservation of the previous
  summary on, for the blocks \<open>toSwap\<close> and the resume marker.
\<close>

definition swapBlocks ::
  "platform \<Rightarrow> env \<Rightarrow> event \<Rightarrow> eblock list \<Rightarrow> string \<Rightarrow> state
     \<Rightarrow> (handler_result \<times> state) option" where
  "swapBlocks pf ev evt toSwap firstKeptEntryId st =
     (let st1 = preservePrevious ev (branchEntries evt) st
      in if aborted ev 0 then Some (Undefined, st1)
         else
           (case lookupSwapped toSwap st1 [] [] of
              (st2, compressedSlots, missedBlocks) \<Rightarrow>
                (case compressMissed ev (maxParallelCompressions (config st2)) missedBlocks 0 1
                        (st2, compressedSlots) of
                   None \<Rightarrow> None
                 | Some (Inl st3) \<Rightarrow> Some (Undefined, st3)
                 | Some (Inr (st3, slots, n)) \<Rightarrow>
                     if aborted ev n then Some (Undefined, st3)
                     else Some (assemble pf ev evt toSwap firstKeptEntryId st3 slots))))"

text \<open>
  \<open>handleBeforeCompact\<close>. \<open>None\<close> is a call that does not return; every other
  outcome comes with the state it leaves.
\<close>

definition handleBeforeCompact ::
  "platform \<Rightarrow> env \<Rightarrow> event \<Rightarrow> state \<Rightarrow> (handler_result \<times> state) option" where
  "handleBeforeCompact pf ev evt st =
     (if \<not> enabled (config st) then Some (Undefined, st)
      else if branchEntries evt = [] then Some (Cancel, st)
      else if \<not> capable st then Some (Cancel, st)
      else
        (let st1 = trackSession (branchEntries evt) st
         in case groupEntriesIntoBlocks pf (config st1) (branchEntries evt)
                   (startIdxOf (branchEntries evt)) of
              None \<Rightarrow> None
            | Some allBlocks \<Rightarrow>
                (let blocks = filter (\<lambda>b. block_tokens b \<ge> minTokensOf (config st1)) allBlocks;
                     overflow = int (tokensBefore evt) - int (compressTrigger (config st1))
                 in if blocks = [] then Some (Cancel, st1)
                    else if deferredCompactionMinBlocks st1 > 0
                            \<and> length blocks < deferredCompactionMinBlocks st1
                    then Some (Cancel, st1)
                    else if overflow \<le> 0 then Some (Cancel, st1)
                    else
                      (let blocksToSwap = swapCount (messageCache st1) overflow blocks
                       in if blocksToSwap = 0
                          then Some (Cancel, st1\<lparr> deferredCompactionMinBlocks := 2 \<rparr>)
                          else
                            (let st2 = st1\<lparr> deferredCompactionMinBlocks := 0 \<rparr>;
                                 toSwap = take blocksToSwap blocks;
                                 toKeepRaw = drop blocksToSwap blocks;
                                 firstKeptEntryId =
                                   (case toKeepRaw of
                                      b # _ \<Rightarrow> firstEntryId b
                                    | [] \<Rightarrow> be_id (last (branchEntries evt)))
                             in if firstKeptEntryId = [] then Some (Cancel, st2)
                                else swapBlocks pf ev evt toSwap firstKeptEntryId st2)))))"

subsection \<open>A reference platform for concrete runs\<close>

text \<open>
  Stand-ins for the platform primitives, used only where a run is evaluated: the hash
  is the identity (free of collisions), the dates are fixed strings, and the newline
  test is the exact comparison \<open>10 * p > 7 * m\<close>.
\<close>

definition referencePlatform :: platform where
  "referencePlatform = \<lparr> hashText = (\<lambda>t. t), hash8 = (\<lambda>t. t),
     isoDate = (\<lambda>_. ''2026-02-20''), isoMinute = (\<lambda>_. ''2026-02-20T00:00''),
     isoTime = (\<lambda>_. ''2026-02-20T00:00:00.000Z''),
     exceeds70 = (\<lambda>p m. 10 * p > 7 * m) \<rparr>"

subsection \<open>Concrete inputs\<close>

definition userMsg :: "string \<Rightarrow> message" where
  "userMsg s = emptyMessage\<lparr> role := ''user'', content := CString s \<rparr>"

definition toolCallMsg :: "string \<Rightarrow> message" where
  "toolCallMsg n = emptyMessage\<lparr> role := ''assistant'',
     content := CArray [\<lparr> btype = ''toolCall'', btext = [], bthinking = [], bname = n,
                          barguments = Some ''{}'' \<rparr>] \<rparr>"

definition toolResultMsg :: "string \<Rightarrow> message" where
  "toolResultMsg s = emptyMessage\<lparr> role := ''toolResult'', content := CString s \<rparr>"

definition msgEntry :: "string \<Rightarrow> message \<Rightarrow> branch_entry" where
  "msgEntry i m = \<lparr> be_id = i, be_type = ''message'', be_message = Some m,
     be_customType = [], be_data = None, be_content = [], be_summary = [] \<rparr>"

text \<open>
  A turn with a tool exchange (7, 15 and 9 tokens), and the same turn as branch
  entries, followed by a user message of 18 tokens with a newline in it.
\<close>

definition toolTurn :: "message list" where
  "toolTurn = [userMsg ''0123456789012345'', toolCallMsg ''ls'',
               toolResultMsg ''file-a file-b file-c'']"

definition toolSpan :: "branch_entry list" where
  "toolSpan = [msgEntry ''e0'' (userMsg ''0123456789012345''),
               msgEntry ''e1'' (toolCallMsg ''ls''),
               msgEntry ''e2'' (toolResultMsg ''file-a file-b file-c''),
               msgEntry ''e3'' (userMsg (''0123456789012345678901234'' @ [NL] @
                                          ''abcdefghijklmnopqrstuvwxyzABCDEFGHIJ''))]"

definition twoTurns :: "branch_entry list" where
  "twoTurns = [msgEntry ''e0'' (userMsg ''a''), msgEntry ''e1'' (userMsg ''b'')]"

definition config20 :: config where
  "config20 = DEFAULT_CONFIG\<lparr> blockSize := 20 \<rparr>"

definition config10 :: config where
  "config10 = DEFAULT_CONFIG\<lparr> blockSize := 10 \<rparr>"

text \<open>
  An engine state with the default configuration, the provider client and a key, and
  nothing stored; and one with three history entries and an eviction threshold of 100.
\<close>

definition readyState :: state where
  "readyState = \<lparr> config = DEFAULT_CONFIG, completeSimple = True,
     resolvedApiKey = Some ''key'', currentSessionId = None, compactionHistory = [],
     messageCache = Map.empty, compressionQueue = [], deferredCompactionMinBlocks = 0,
     rawArchive = Map.empty, memoryArchive = Map.empty, historyFiles = Map.empty,
     cacheFile = None \<rparr>"

definition historyEntry :: "string \<Rightarrow> nat \<Rightarrow> nat \<Rightarrow> history_entry" where
  "historyEntry c r t = \<lparr> compressed = c, tokensRaw = r, tokensCompressed = t, timestamp = 0 \<rparr>"

definition evictionState :: state where
  "evictionState = readyState\<lparr> config := DEFAULT_CONFIG\<lparr> evictTrigger := 100 \<rparr>,
     compactionHistory := [historyEntry ''one'' 90 60, historyEntry ''two'' 80 50,
                           historyEntry ''three'' 20 10] \<rparr>"

text \<open>
  A compaction request: four one-message turns of 7, 3, 7 and 7 tokens, 105 tokens
  before, against a trigger of 100, a swap threshold of 6 tokens and a provider whose
  every call throws.
\<close>

definition smallConfig :: config where
  "smallConfig = DEFAULT_CONFIG\<lparr> compressTrigger := 100, blockSize := 20,
     minCompressChars := 20, minSwapTokens := 6 \<rparr>"

definition smallState :: state where
  "smallState = readyState\<lparr> config := smallConfig \<rparr>"

definition fourTurns :: "branch_entry list" where
  "fourTurns = [msgEntry ''e0'' (userMsg ''0123456789012345''),
                msgEntry ''e1'' (userMsg ''hi''),
                msgEntry ''e2'' (userMsg ''abcdefghijklmnop''),
                msgEntry ''e3'' (userMsg ''ABCDEFGHIJKLMNOP'')]"

definition smallEvent :: event where
  "smallEvent = \<lparr> tokensBefore = 105, branchEntries = fourTurns \<rparr>"

definition failingEnv :: env where
  "failingEnv = \<lparr> provider = (\<lambda>_. Throws), aborted = (\<lambda>_. False),
     nowPreserve = 1000, nowAppend = 2000 \<rparr>"

text \<open>
  The blocks of \<open>fourTurns\<close>, and the state the request leaves: the first and the
  third block are swapped, both compressions fail and the raw texts are stored.
\<close>

definition turnBlock :: "nat \<Rightarrow> string \<Rightarrow> string \<Rightarrow> eblock" where
  "turnBlock i ident s =
     finalizeEntryBlock referencePlatform [\<lparr> index = i, id_e = ident, message = userMsg s \<rparr>]"

definition humanText :: "string \<Rightarrow> string" where
  "humanText s = ''[Human]:'' @ [NL] @ s"

definition rawEntry :: "string \<Rightarrow> cache_entry" where
  "rawEntry t = \<lparr> compressed = t, tokensRaw = estimateTokens t,
                  tokensCompressed = estimateTokens t \<rparr>"

definition smallHistory :: "history_entry list" where
  "smallHistory =
     [\<lparr> compressed = humanText ''0123456789012345'' @ separator @ humanText ''abcdefghijklmnop'',
        tokensRaw = 14, tokensCompressed = 15, timestamp = 2000 \<rparr>]"

definition smallCache :: "string \<rightharpoonup> cache_entry" where
  "smallCache =
     [humanText ''0123456789012345'' \<mapsto> rawEntry (humanText ''0123456789012345''),
      humanText ''abcdefghijklmnop'' \<mapsto> rawEntry (humanText ''abcdefghijklmnop'')]"

definition smallResult :: state where
  "smallResult = smallState\<lparr> currentSessionId := Some ''e0'',
     compactionHistory := smallHistory,
     messageCache := smallCache,
     rawArchive :=
       [humanText ''0123456789012345'' @ ''.md'' \<mapsto> humanText ''0123456789012345'',
        humanText ''abcdefghijklmnop'' @ ''.md'' \<mapsto> humanText ''abcdefghijklmnop''],
     historyFiles := [''e0'' \<mapsto> smallHistory],
     cacheFile := Some smallCache \<rparr>"

text \<open>
  The same state without a key, and that one with the engine switched off; a request
  of a single turn; and a block that is long enough to be queued.
\<close>

definition keylessState :: state where
  "keylessState = smallState\<lparr> resolvedApiKey := None \<rparr>"

definition disabledState :: state where
  "disabledState = keylessState\<lparr> config := smallConfig\<lparr> enabled := False \<rparr> \<rparr>"

definition singleEvent :: event where
  "singleEvent = \<lparr> tokensBefore = 105,
     branchEntries = [msgEntry ''e0'' (userMsg ''0123456789012345'')] \<rparr>"

text \<open>
  Four blocks of 5000, 4000, 4000 and 3000 tokens, the first two cached with 2000 and
  1800 compressed tokens.
\<close>

definition sizedBlock :: "string \<Rightarrow> nat \<Rightarrow> block" where
  "sizedBlock h n = \<lparr> block_text = [], block_hash = h, block_tokens = n \<rparr>"

definition sizedEntry :: "nat \<Rightarrow> nat \<Rightarrow> cache_entry" where
  "sizedEntry r c = \<lparr> compressed = [], tokensRaw = r, tokensCompressed = c \<rparr>"

definition scenarioBlocks :: "block list" where
  "scenarioBlocks = [sizedBlock ''b1'' 5000, sizedBlock ''b2'' 4000,
                     sizedBlock ''b3'' 4000, sizedBlock ''b4'' 3000]"

definition scenarioCache :: "string \<rightharpoonup> cache_entry" where
  "scenarioCache = [''b1'' \<mapsto> sizedEntry 5000 2000, ''b2'' \<mapsto> sizedEntry 4000 1800]"

definition scenarioEvent :: event where
  "scenarioEvent = \<lparr> tokensBefore = 40000, branchEntries = [] \<rparr>"

subsection \<open>Notions used to state the properties\<close>

text \<open>
  The conversational entries of a span, as the first loop of
  \<open>groupEntriesIntoBlocks\<close> selects them: entries without a message and summaries
  are left out.
\<close>

fun conversationEntries :: "branch_entry list \<Rightarrow> nat \<Rightarrow> ientry list" where
  "conversationEntries [] i = []"
| "conversationEntries (entry # rest) i =
     (case getMessageFromEntry entry of
        None \<Rightarrow> conversationEntries rest (Suc i)
      | Some msg \<Rightarrow>
          if role msg = ''compactionSummary'' \<or> role msg = ''branchSummary''
          then conversationEntries rest (Suc i)
          else \<lparr> index = i, id_e = be_id entry, message = msg \<rparr>
                 # conversationEntries rest (Suc i))"

definition spanEntries :: "branch_entry list \<Rightarrow> nat \<Rightarrow> ientry list" where
  "spanEntries es startIndex = conversationEntries (drop startIndex es) startIndex"

text \<open>The content of a span: the texts of its messages, joined as the code joins a turn.\<close>

definition spanText :: "branch_entry list \<Rightarrow> nat \<Rightarrow> string" where
  "spanText es startIndex = messagesText (map message (spanEntries es startIndex))"

text \<open>
  The texts of the blocks put together again: nothing between two fragments of one
  entry (they carry the same \<open>firstEntryIndex\<close>), a blank line between two other
  blocks.
\<close>

fun rejoin :: "eblock list \<Rightarrow> string" where
  "rejoin [] = []"
| "rejoin [b] = block_text b"
| "rejoin (b # b' # bs) =
     block_text b @ (if firstEntryIndex b = firstEntryIndex b' then [] else [NL, NL])
       @ rejoin (b' # bs)"

text \<open>
  \<open>inRun pre\<close>: the list \<open>pre\<close> ends inside a tool exchange, that is with a tool
  invocation followed by tool results only. \<open>inRunRev\<close> reads the list from its end.
\<close>

fun inRunRev :: "ientry list \<Rightarrow> bool" where
  "inRunRev [] = False"
| "inRunRev (e # before) =
     (hasToolUse (message e) \<or> (hasToolResult (message e) \<and> inRunRev before))"

definition inRun :: "ientry list \<Rightarrow> bool" where
  "inRun pre = inRunRev (rev pre)"

text \<open>
  The shape of a segmentation: \<open>covers pf bs es\<close> when the blocks \<open>bs\<close> are, in
  order, finalized groups of consecutive entries of \<open>es\<close> and runs of fragments of
  single entries. \<open>turnCover pf pre bs es\<close> adds that no group starts with a tool
  result that continues a tool exchange of what comes before it in the turn.
\<close>

inductive covers :: "platform \<Rightarrow> eblock list \<Rightarrow> ientry list \<Rightarrow> bool" for pf where
  covers_nil: "covers pf [] []"
| covers_whole:
    "es \<noteq> [] \<Longrightarrow> covers pf bs rest
       \<Longrightarrow> covers pf (finalizeEntryBlock pf es # bs) (es @ rest)"
| covers_frags:
    "chunks \<noteq> [] \<Longrightarrow> concat chunks = extractMessageText (message e) \<Longrightarrow> covers pf bs rest
       \<Longrightarrow> covers pf (map (chunkEntryBlock pf e) chunks @ bs) (e # rest)"

inductive turnCover :: "platform \<Rightarrow> ientry list \<Rightarrow> eblock list \<Rightarrow> ientry list \<Rightarrow> bool" for pf where
  turnCover_nil: "turnCover pf pre [] []"
| turnCover_whole:
    "es \<noteq> [] \<Longrightarrow> \<not> (hasToolResult (message (hd es)) \<and> inRun pre)
       \<Longrightarrow> turnCover pf (pre @ es) bs rest
       \<Longrightarrow> turnCover pf pre (finalizeEntryBlock pf es # bs) (es @ rest)"
| turnCover_frags:
    "chunks \<noteq> [] \<Longrightarrow> concat chunks = extractMessageText (message e)
       \<Longrightarrow> \<not> (hasToolResult (message e) \<and> inRun pre)
       \<Longrightarrow> turnCover pf (pre @ [e]) bs rest
       \<Longrightarrow> turnCover pf pre (map (chunkEntryBlock pf e) chunks @ bs) (e # rest)"

text \<open>
  \<open>newTurnAt a b\<close>: the first loop of \<open>groupEntriesIntoBlocks\<close> starts a new turn
  at the entry \<open>b\<close> that follows \<open>a\<close>. \<open>turnsOK\<close>: a list of non-empty turns,
  each of which starts where that loop starts one.
\<close>

definition newTurnAt :: "ientry \<Rightarrow> ientry \<Rightarrow> bool" where
  "newTurnAt a b =
     (role (message b) = ''user''
      \<and> \<not> (hasToolResult (message b) \<and> hasToolUse (message a)))"

fun turnsOK :: "ientry list list \<Rightarrow> bool" where
  "turnsOK [] = True"
| "turnsOK [t] = (t \<noteq> [])"
| "turnsOK (t # t' # ts) = (t \<noteq> [] \<and> newTurnAt (last t) (hd t') \<and> turnsOK (t' # ts))"

text \<open>
  What a swapped block contributes to the payload: its cache entry as the round finds
  it, or else the result of the on-demand compression. \<open>missedFrom cache n bs\<close> are
  the cache misses among the blocks \<open>bs\<close>, whose slots start at \<open>n\<close>.
\<close>

definition resolved :: "env \<Rightarrow> state \<Rightarrow> 'a block_scheme \<Rightarrow> cache_entry" where
  "resolved ev st b =
     (case messageCache st (block_hash b) of
        Some cached \<Rightarrow> cached
      | None \<Rightarrow> onDemandResult ev st b)"

fun missedFrom :: "(string \<rightharpoonup> cache_entry) \<Rightarrow> nat \<Rightarrow> eblock list \<Rightarrow> missed_block list" where
  "missedFrom cache n [] = []"
| "missedFrom cache n (b # bs) =
     (case cache (block_hash b) of
        Some cached \<Rightarrow> missedFrom cache (Suc n) bs
      | None \<Rightarrow>
          \<lparr> block_text = block_text b, block_hash = block_hash b,
            block_tokens = block_tokens b, slotIndex = n \<rparr> # missedFrom cache (Suc n) bs)"

text \<open>The history entry a round appends for the blocks it swaps.\<close>

definition roundEntry :: "env \<Rightarrow> state \<Rightarrow> eblock list \<Rightarrow> history_entry" where
  "roundEntry ev st toSwap =
     \<lparr> compressed = join separator (map (\<lambda>b. compressed (resolved ev st b)) toSwap),
       tokensRaw = sum_list (map block_tokens toSwap),
       tokensCompressed =
         estimateTokens (join separator (map (\<lambda>b. compressed (resolved ev st b)) toSwap)),
       timestamp = nowAppend ev \<rparr>"

text \<open>The estimated savings of the \<open>j\<close> oldest blocks.\<close>

definition cumulativeSavings :: "(string \<rightharpoonup> cache_entry) \<Rightarrow> 'a block_scheme list \<Rightarrow> nat \<Rightarrow> int" where
  "cumulativeSavings cache blocks j = sum_list (map (savings cache) (take j blocks))"

text \<open>The blocks the planner considers, and the overflow of a request.\<close>

definition eligibleBlocks :: "config \<Rightarrow> eblock list \<Rightarrow> eblock list" where
  "eligibleBlocks cfg allBlocks = filter (\<lambda>b. block_tokens b \<ge> minTokensOf cfg) allBlocks"

definition overflowOf :: "config \<Rightarrow> event \<Rightarrow> int" where
  "overflowOf cfg evt = int (tokensBefore evt) - int (compressTrigger cfg)"

text \<open>
  The entries the host keeps raw after a round: those from the first kept entry on.
\<close>

definition rawRegion :: "eblock \<Rightarrow> ientry list \<Rightarrow> ientry list" where
  "rawRegion marker es = filter (\<lambda>e. firstEntryIndex marker \<le> index e) es"

subsection \<open>Facts about the hard split and the split of a turn\<close>

lemma splitPoint_pos: "0 < maxChars \<Longrightarrow> 0 < splitPoint pf maxChars remaining"
  by (simp add: splitPoint_def split: option.splits)

lemma hardSplitLoop_total:
  "0 < maxChars \<Longrightarrow>
   \<exists>new. hardSplitLoop pf maxChars chunks remaining = Some (chunks @ new)
         \<and> concat new = remaining \<and> (remaining \<noteq> [] \<longrightarrow> new \<noteq> [])"
proof (induction "length remaining" arbitrary: remaining chunks rule: less_induct)
  case less
  show ?case
  proof (cases "length remaining > maxChars")
    case False
    then show ?thesis
      by (subst hardSplitLoop.simps) auto
  next
    case True
    let ?k = "splitPoint pf maxChars remaining"
    have pos: "0 < ?k" using less.prems by (rule splitPoint_pos)
    with True have "length (drop ?k remaining) < length remaining" by simp
    from less.hyps [OF this less.prems, of "chunks @ [take ?k remaining]"]
    obtain new where new:
      "hardSplitLoop pf maxChars (chunks @ [take ?k remaining]) (drop ?k remaining)
         = Some ((chunks @ [take ?k remaining]) @ new)"
      "concat new = drop ?k remaining"
      by blast
    have "hardSplitLoop pf maxChars chunks remaining = Some (chunks @ (take ?k remaining # new))"
      using True new(1) by (subst hardSplitLoop.simps) simp
    moreover have "concat (take ?k remaining # new) = remaining"
      using new(2) by simp
    ultimately show ?thesis by blast
  qed
qed

lemma hardSplitText_total:
  "0 < maxChars \<Longrightarrow>
   \<exists>chunks. hardSplitText pf t maxChars = Some chunks
         \<and> concat chunks = t \<and> (t \<noteq> [] \<longrightarrow> chunks \<noteq> [])"
  using hardSplitLoop_total [of maxChars pf "[]" t] by (simp add: hardSplitText_def)

lemma pairedResults_prefix:
  "pairedResults e rest @ drop (length (pairedResults e rest)) rest = rest"
  by (simp add: pairedResults_def dropWhile_eq_drop [symmetric])

lemma pairedResults_are_results:
  "r \<in> set (pairedResults e rest) \<Longrightarrow> hasToolResult (message r)"
  by (auto simp: pairedResults_def dest: set_takeWhileD split: if_splits)

lemma inRun_snoc:
  "inRun (pre @ [e]) = (hasToolUse (message e) \<or> (hasToolResult (message e) \<and> inRun pre))"
  by (simp add: inRun_def)

lemma inRun_run:
  "hasToolUse (message u) \<Longrightarrow> \<forall>r \<in> set rs. hasToolResult (message r) \<Longrightarrow> inRun (pre @ u # rs)"
proof (induction rs rule: rev_induct)
  case Nil
  then show ?case using inRun_snoc [of pre u] by simp
next
  case (snoc r rs)
  then have "inRun (pre @ u # rs)" by simp
  with snoc.prems(2) show ?case using inRun_snoc [of "pre @ u # rs" r] by simp
qed

lemma pairedResults_next_clean:
  assumes "\<not> (hasToolResult (message e) \<and> inRun P)"
    and "drop (length (pairedResults e rest)) rest \<noteq> []"
  shows "\<not> (hasToolResult (message (hd (drop (length (pairedResults e rest)) rest)))
            \<and> inRun (P @ e # pairedResults e rest))"
proof (cases "hasToolUse (message e)")
  case True
  then have "drop (length (pairedResults e rest)) rest
      = dropWhile (\<lambda>e. hasToolResult (message e)) rest"
    by (simp add: pairedResults_def dropWhile_eq_drop)
  with assms(2) show ?thesis using hd_dropWhile [of "\<lambda>e. hasToolResult (message e)" rest] by simp
next
  case False
  then have "pairedResults e rest = []" by (simp add: pairedResults_def)
  moreover from False assms(1) have "\<not> inRun (P @ [e])" by (simp add: inRun_snoc)
  ultimately show ?thesis by simp
qed

lemma turnCover_flush:
  assumes "be \<noteq> [] \<longrightarrow> \<not> (hasToolResult (message (hd be)) \<and> inRun pre)"
    and "turnCover pf (pre @ be) new es"
  shows "\<exists>new0. flushEntries pf blocks be @ new = blocks @ new0 \<and> turnCover pf pre new0 (be @ es)"
proof (cases "be = []")
  case True
  with assms(2) show ?thesis by (simp add: flushEntries_def)
next
  case False
  with assms have "turnCover pf pre (finalizeEntryBlock pf be # new) (be @ es)"
    by (auto intro: turnCover_whole)
  with False show ?thesis by (simp add: flushEntries_def)
qed

lemma extractMessageText_nonempty_if_tokens:
  "n < estimateTokens t \<Longrightarrow> t \<noteq> []"
  by (auto simp: estimateTokens_def)

lemma splitEntries_turnCover:
  assumes mc: "0 < maxChars"
  shows "splitEntries pf maxTokens maxChars es blocks be bt = Some r \<Longrightarrow>
     (be \<noteq> [] \<longrightarrow> \<not> (hasToolResult (message (hd be)) \<and> inRun pre)) \<Longrightarrow>
     (es \<noteq> [] \<longrightarrow> \<not> (hasToolResult (message (hd es)) \<and> inRun (pre @ be))) \<Longrightarrow>
     \<exists>new. r = blocks @ new \<and> turnCover pf pre new (be @ es)"
proof (induction "length es" arbitrary: es blocks be bt pre r rule: less_induct)
  case less
  note H1 = less.prems(2) and H2 = less.prems(3)
  show ?case
  proof (cases es)
    case Nil
    with less.prems(1) have r: "r = flushEntries pf blocks be" by simp
    have "turnCover pf (pre @ be) [] []" by (rule turnCover_nil)
    from turnCover_flush [OF H1 this, of blocks] r Nil show ?thesis by simp
  next
    case (Cons e rest)
    let ?R = "pairedResults e rest"
    let ?rest' = "drop (length ?R) rest"
    let ?txt = "extractMessageText (message e)"
    let ?pt = "estimateTokens ?txt + sum_list (map entryTokens ?R)"
    have split: "rest = ?R @ ?rest'" by (simp add: pairedResults_prefix)
    have shorter: "length ?rest' < length es" using Cons by simp
    have cleanE: "\<not> (hasToolResult (message e) \<and> inRun (pre @ be))"
      using H2 Cons by simp
    have nextClean: "?rest' \<noteq> [] \<longrightarrow>
        \<not> (hasToolResult (message (hd ?rest')) \<and> inRun ((pre @ be) @ e # ?R))"
      using pairedResults_next_clean [OF cleanE] by blast
    have es_eq: "be @ es = be @ (e # ?R) @ ?rest'"
      using Cons split by simp
    consider
      (pair) "maxTokens < ?pt" "?R \<noteq> []"
    | (single) "maxTokens < ?pt" "?R = []"
    | (start) "\<not> maxTokens < ?pt" "maxTokens < bt + ?pt" "be \<noteq> []"
    | (extend) "\<not> maxTokens < ?pt" "\<not> (maxTokens < bt + ?pt \<and> be \<noteq> [])"
      by blast
    then show ?thesis
    proof cases
      case pair
      with less.prems(1) Cons have run:
        "splitEntries pf maxTokens maxChars ?rest'
           (flushEntries pf blocks be @ [finalizeEntryBlock pf (e # ?R)]) [] 0 = Some r"
        by (simp add: Let_def)
      from nextClean have "?rest' \<noteq> [] \<longrightarrow>
          \<not> (hasToolResult (message (hd ?rest')) \<and> inRun (((pre @ be) @ e # ?R) @ []))"
        by simp
      from less.hyps [OF shorter run _ this]
      obtain new' where new': "r = (flushEntries pf blocks be @ [finalizeEntryBlock pf (e # ?R)]) @ new'"
        "turnCover pf ((pre @ be) @ e # ?R) new' ([] @ ?rest')"
        by blast
      from new'(2) cleanE
      have "turnCover pf (pre @ be) (finalizeEntryBlock pf (e # ?R) # new') ((e # ?R) @ ?rest')"
        by (intro turnCover_whole) simp_all
      from turnCover_flush [OF H1 this, of blocks] new'(1) es_eq show ?thesis by auto
    next
      case single
      from single(1) have "maxTokens < estimateTokens ?txt" using single(2) by simp
      then have ne: "?txt \<noteq> []" by (rule extractMessageText_nonempty_if_tokens)
      from hardSplitText_total [OF mc, of pf ?txt] ne
      obtain chunks where chunks: "hardSplitText pf ?txt maxChars = Some chunks"
        "concat chunks = ?txt" "chunks \<noteq> []"
        by blast
      with single less.prems(1) Cons have run:
        "splitEntries pf maxTokens maxChars ?rest'
           (flushEntries pf blocks be @ map (chunkEntryBlock pf e) chunks) [] 0 = Some r"
        by (simp add: Let_def)
      from nextClean single(2) have "?rest' \<noteq> [] \<longrightarrow>
          \<not> (hasToolResult (message (hd ?rest')) \<and> inRun (((pre @ be) @ [e]) @ []))"
        by simp
      from less.hyps [OF shorter run _ this]
      obtain new' where new': "r = (flushEntries pf blocks be @ map (chunkEntryBlock pf e) chunks) @ new'"
        "turnCover pf ((pre @ be) @ [e]) new' ([] @ ?rest')"
        by blast
      from new'(2) cleanE chunks
      have "turnCover pf (pre @ be) (map (chunkEntryBlock pf e) chunks @ new') (e # ?rest')"
        by (intro turnCover_frags) simp_all
      from turnCover_flush [OF H1 this, of blocks] new'(1) es_eq single(2) show ?thesis by auto
    next
      case start
      with less.prems(1) Cons have run:
        "splitEntries pf maxTokens maxChars ?rest'
           (blocks @ [finalizeEntryBlock pf be]) (e # ?R) ?pt = Some r"
        by (simp add: Let_def)
      have h1: "e # ?R \<noteq> [] \<longrightarrow> \<not> (hasToolResult (message (hd (e # ?R))) \<and> inRun (pre @ be))"
        using cleanE by simp
      from less.hyps [OF shorter run h1] nextClean
      obtain new' where new': "r = (blocks @ [finalizeEntryBlock pf be]) @ new'"
        "turnCover pf (pre @ be) new' ((e # ?R) @ ?rest')"
        by blast
      from new'(2) start(3) H1
      have "turnCover pf pre (finalizeEntryBlock pf be # new') (be @ (e # ?R) @ ?rest')"
        by (intro turnCover_whole) simp_all
      with new'(1) es_eq show ?thesis by auto
    next
      case extend
      with less.prems(1) Cons have run:
        "splitEntries pf maxTokens maxChars ?rest' blocks (be @ e # ?R) (bt + ?pt) = Some r"
        by (auto simp add: Let_def)
      have h1: "be @ e # ?R \<noteq> [] \<longrightarrow>
          \<not> (hasToolResult (message (hd (be @ e # ?R))) \<and> inRun pre)"
        using cleanE H1 by (cases be) simp_all
      have h2: "?rest' \<noteq> [] \<longrightarrow>
          \<not> (hasToolResult (message (hd ?rest')) \<and> inRun (pre @ be @ e # ?R))"
        using nextClean by simp
      from less.hyps [OF shorter run h1 h2]
      obtain new' where new': "r = blocks @ new'"
        "turnCover pf pre new' ((be @ e # ?R) @ ?rest')"
        by blast
      with es_eq show ?thesis by auto
    qed
  qed
qed

lemma splitEntries_total:
  assumes mc: "0 < maxChars"
  shows "\<exists>r. splitEntries pf maxTokens maxChars es blocks be bt = Some r"
proof (induction "length es" arbitrary: es blocks be bt rule: less_induct)
  case less
  show ?case
  proof (cases es)
    case Nil
    then show ?thesis by simp
  next
    case (Cons e rest)
    let ?R = "pairedResults e rest"
    let ?rest' = "drop (length ?R) rest"
    let ?txt = "extractMessageText (message e)"
    have shorter: "length ?rest' < length es" using Cons by simp
    note IH = less.hyps [OF shorter]
    from hardSplitText_total [OF mc, of pf ?txt]
    obtain chunks where chunks: "hardSplitText pf ?txt maxChars = Some chunks" by blast
    show ?thesis
    proof (cases "?R = []")
      case True
      with IH have "\<And>blocks be bt. \<exists>r. splitEntries pf maxTokens maxChars rest blocks be bt = Some r"
        by simp
      with Cons chunks True show ?thesis by (simp add: Let_def)
    next
      case False
      with Cons IH show ?thesis by (simp add: Let_def)
    qed
  qed
qed

subsection \<open>Facts about the segmentation of a span\<close>

lemma turnCover_covers: "turnCover pf pre bs es \<Longrightarrow> covers pf bs es"
  by (induction rule: turnCover.induct) (auto intro: covers.intros)

lemma covers_append:
  "covers pf bs1 es1 \<Longrightarrow> covers pf bs2 es2 \<Longrightarrow> covers pf (bs1 @ bs2) (es1 @ es2)"
proof (induction rule: covers.induct)
  case covers_nil
  then show ?case by simp
next
  case (covers_whole es bs rest)
  then have "covers pf (finalizeEntryBlock pf es # (bs @ bs2)) (es @ (rest @ es2))"
    by (intro covers.covers_whole) simp_all
  then show ?case by simp
next
  case (covers_frags chunks e bs rest)
  then have "covers pf (map (chunkEntryBlock pf e) chunks @ (bs @ bs2)) (e # (rest @ es2))"
    by (intro covers.covers_frags) simp_all
  then show ?case by simp
qed

lemma covers_empty_iff: "covers pf bs es \<Longrightarrow> (bs = []) = (es = [])"
  by (induction rule: covers.induct) auto

lemma finalizeEntryBlock_fields [simp]:
  "entries (finalizeEntryBlock pf es) = es"
  "firstEntryIndex (finalizeEntryBlock pf es) = index (hd es)"
  "firstEntryId (finalizeEntryBlock pf es) = id_e (hd es)"
  "block_text (finalizeEntryBlock pf es) = messagesText (map message es)"
  "block_tokens (finalizeEntryBlock pf es) = estimateTokens (messagesText (map message es))"
  "block_hash (finalizeEntryBlock pf es) = hashText pf (messagesText (map message es))"
  by (simp_all add: finalizeEntryBlock_def Let_def)

lemma chunkEntryBlock_fields [simp]:
  "entries (chunkEntryBlock pf e c) = [e]"
  "firstEntryIndex (chunkEntryBlock pf e c) = index e"
  "firstEntryId (chunkEntryBlock pf e c) = id_e e"
  "block_text (chunkEntryBlock pf e c) = c"
  "block_tokens (chunkEntryBlock pf e c) = estimateTokens c"
  "block_hash (chunkEntryBlock pf e c) = hashText pf c"
  by (simp_all add: chunkEntryBlock_def)

lemma covers_first:
  "covers pf bs es \<Longrightarrow> es \<noteq> [] \<Longrightarrow>
     firstEntryIndex (hd bs) = index (hd es) \<and> firstEntryId (hd bs) = id_e (hd es)"
proof (induction rule: covers.induct)
  case covers_nil
  then show ?case by simp
next
  case (covers_whole es bs rest)
  then show ?case by simp
next
  case (covers_frags chunks e bs rest)
  then show ?case by (cases chunks) simp_all
qed

lemma covers_last:
  "covers pf bs es \<Longrightarrow> es \<noteq> [] \<Longrightarrow> bs \<noteq> [] \<and> last (entries (last bs)) = last es"
proof (induction rule: covers.induct)
  case covers_nil
  then show ?case by simp
next
  case (covers_whole es bs rest)
  show ?case
  proof (cases "rest = []")
    case True
    with covers_whole covers_empty_iff [of pf bs rest] show ?thesis by simp
  next
    case False
    with covers_whole show ?thesis by simp
  qed
next
  case (covers_frags chunks e bs rest)
  show ?case
  proof (cases "rest = []")
    case True
    with covers_frags covers_empty_iff [of pf bs rest] show ?thesis
      by (simp add: last_map)
  next
    case False
    with covers_frags show ?thesis by simp
  qed
qed

lemma entryTurns_concat:
  "concat (entryTurns rest i turns cur) = concat turns @ cur @ conversationEntries rest i"
proof (induction rest arbitrary: i turns cur)
  case Nil
  then show ?case by simp
next
  case (Cons entry rest)
  show ?case
    by (simp add: Cons.IH split: option.splits)
qed

lemma entryTurns_nonempty:
  "\<forall>t \<in> set turns. t \<noteq> [] \<Longrightarrow> \<forall>t \<in> set (entryTurns rest i turns cur). t \<noteq> []"
proof (induction rest arbitrary: i turns cur)
  case Nil
  then show ?case by simp
next
  case (Cons entry rest)
  have a: "\<And>i cur. \<forall>t \<in> set (entryTurns rest i turns cur). t \<noteq> []"
    using Cons.prems by (rule Cons.IH)
  have b: "\<And>i cur' . cur \<noteq> [] \<Longrightarrow> \<forall>t \<in> set (entryTurns rest i (turns @ [cur]) cur'). t \<noteq> []"
    using Cons.prems by (intro Cons.IH) simp
  show ?case
    using a b by (simp split: option.splits)
qed

lemma splitEntryTurns_covers:
  assumes mc: "0 < maxChars"
  shows "\<forall>t \<in> set turns. t \<noteq> [] \<Longrightarrow>
     \<exists>new. splitEntryTurns pf maxTokens maxChars turns blocks = Some (blocks @ new)
           \<and> covers pf new (concat turns)"
proof (induction turns arbitrary: blocks)
  case Nil
  then show ?case by (auto intro: covers_nil)
next
  case (Cons t ts)
  then have t: "t \<noteq> []" and ts: "\<forall>t \<in> set ts. t \<noteq> []" by simp_all
  show ?case
  proof (cases "estimateTokens (messagesText (map message t)) \<le> maxTokens")
    case True
    from Cons.IH [OF ts, of "blocks @ [finalizeEntryBlock pf t]"]
    obtain new where new: "splitEntryTurns pf maxTokens maxChars ts (blocks @ [finalizeEntryBlock pf t])
        = Some ((blocks @ [finalizeEntryBlock pf t]) @ new)" "covers pf new (concat ts)"
      by blast
    from t new(2) have "covers pf (finalizeEntryBlock pf t # new) (t @ concat ts)"
      by (rule covers_whole)
    with True new(1) show ?thesis by auto
  next
    case False
    from splitEntries_total [OF mc, of pf maxTokens t blocks "[]" 0]
    obtain r where r: "splitEntries pf maxTokens maxChars t blocks [] 0 = Some r" by blast
    have "\<exists>new. r = blocks @ new \<and> turnCover pf [] new ([] @ t)"
      by (rule splitEntries_turnCover [OF mc r]) (simp_all add: inRun_def)
    then obtain new1 where new1: "r = blocks @ new1" "covers pf new1 t"
      by (auto dest: turnCover_covers)
    from Cons.IH [OF ts, of r]
    obtain new where new: "splitEntryTurns pf maxTokens maxChars ts r = Some (r @ new)"
      "covers pf new (concat ts)"
      by blast
    from new1(2) new(2) have "covers pf (new1 @ new) (t @ concat ts)"
      by (rule covers_append)
    with False r new(1) new1(1) show ?thesis by auto
  qed
qed

lemma maxTokensOf_pos: "0 < maxTokensOf cfg"
  by (simp add: maxTokensOf_def)

lemma groupEntriesIntoBlocks_covers:
  "\<exists>bs. groupEntriesIntoBlocks pf cfg es startIndex = Some bs
        \<and> covers pf bs (spanEntries es startIndex)"
proof -
  let ?turns = "entryTurns (drop startIndex es) startIndex [] []"
  have ne: "\<forall>t \<in> set ?turns. t \<noteq> []" by (rule entryTurns_nonempty) simp
  have cc: "concat ?turns = spanEntries es startIndex"
    by (simp add: entryTurns_concat spanEntries_def)
  have mc: "0 < maxTokensOf cfg * 4" using maxTokensOf_pos [of cfg] by simp
  from splitEntryTurns_covers [OF mc ne, of pf "maxTokensOf cfg" "[]"] cc
  show ?thesis by (simp add: groupEntriesIntoBlocks_def Let_def)
qed

lemma conversationEntries_index:
  "e \<in> set (conversationEntries es i) \<Longrightarrow> i \<le> index e"
  by (induction es i rule: conversationEntries.induct)
     (fastforce split: option.splits if_splits)+

lemma conversationEntries_sorted:
  "sorted_wrt (<) (map index (conversationEntries es i))"
proof (induction es i rule: conversationEntries.induct)
  case (1 i)
  then show ?case by simp
next
  case (2 entry rest i)
  have "\<And>e. e \<in> set (conversationEntries rest (Suc i)) \<Longrightarrow> i < index e"
    using conversationEntries_index [of _ rest "Suc i"] by fastforce
  with 2 show ?case
    by (auto split: option.splits)
qed

lemma spanEntries_distinct: "distinct (map index (spanEntries es startIndex))"
  using conversationEntries_sorted [of "drop startIndex es" startIndex]
  by (simp add: spanEntries_def strict_sorted_iff)

lemma join_Cons:
  "join sep (x # xs) = x @ (if xs = [] then [] else sep @ join sep xs)"
  by (cases xs) simp_all

lemma join_append:
  "xs \<noteq> [] \<Longrightarrow> ys \<noteq> [] \<Longrightarrow> join sep (xs @ ys) = join sep xs @ sep @ join sep ys"
  by (induction xs) (auto simp: join_Cons)

lemma rejoin_Cons:
  "rejoin (b # bs) = block_text b @
     (case bs of
        [] \<Rightarrow> []
      | b' # _ \<Rightarrow> (if firstEntryIndex b = firstEntryIndex b' then [] else [NL, NL]) @ rejoin bs)"
  by (cases bs) simp_all

lemma rejoin_frags:
  "chunks \<noteq> [] \<Longrightarrow> (bs \<noteq> [] \<longrightarrow> firstEntryIndex (hd bs) \<noteq> index e) \<Longrightarrow>
   rejoin (map (chunkEntryBlock pf e) chunks @ bs)
     = concat chunks @ (if bs = [] then [] else [NL, NL] @ rejoin bs)"
proof (induction chunks)
  case Nil
  then show ?case by simp
next
  case (Cons c cs)
  show ?case
  proof (cases "cs = []")
    case True
    with Cons.prems show ?thesis by (cases bs) (simp_all add: rejoin_Cons)
  next
    case False
    with Cons have "rejoin (map (chunkEntryBlock pf e) cs @ bs)
        = concat cs @ (if bs = [] then [] else [NL, NL] @ rejoin bs)" by simp
    with False show ?thesis by (cases cs) (simp_all add: rejoin_Cons)
  qed
qed

lemma rejoin_covers:
  "covers pf bs es \<Longrightarrow> distinct (map index es) \<Longrightarrow> rejoin bs = messagesText (map message es)"
proof (induction rule: covers.induct)
  case covers_nil
  then show ?case by (simp add: messagesText_def)
next
  case (covers_whole es bs rest)
  then have IH: "rejoin bs = messagesText (map message rest)" by simp
  show ?case
  proof (cases "rest = []")
    case True
    with covers_whole covers_empty_iff [of pf bs rest] show ?thesis by simp
  next
    case False
    with covers_whole covers_empty_iff [of pf bs rest] have bs: "bs \<noteq> []" by simp
    from covers_first [OF covers_whole(2) False]
    have "firstEntryIndex (hd bs) = index (hd rest)" by simp
    moreover from covers_whole(1) False covers_whole.prems
    have "index (hd es) \<noteq> index (hd rest)"
      by (cases es; cases rest) auto
    ultimately have "firstEntryIndex (finalizeEntryBlock pf es) \<noteq> firstEntryIndex (hd bs)"
      by simp
    with bs IH have "rejoin (finalizeEntryBlock pf es # bs)
        = messagesText (map message es) @ [NL, NL] @ messagesText (map message rest)"
      by (cases bs) (simp_all add: rejoin_Cons)
    also from covers_whole(1) False
    have "\<dots> = messagesText (map message (es @ rest))"
      by (simp add: messagesText_def join_append)
    finally show ?thesis .
  qed
next
  case (covers_frags chunks e bs rest)
  then have IH: "rejoin bs = messagesText (map message rest)" by simp
  have sep: "bs \<noteq> [] \<longrightarrow> firstEntryIndex (hd bs) \<noteq> index e"
  proof
    assume "bs \<noteq> []"
    with covers_frags(3) covers_empty_iff [of pf bs rest] have rest: "rest \<noteq> []" by simp
    from covers_first [OF covers_frags(3) rest] covers_frags.prems rest
    show "firstEntryIndex (hd bs) \<noteq> index e" by (cases rest) auto
  qed
  from rejoin_frags [OF covers_frags(1) sep] covers_frags(2) IH
    covers_empty_iff [OF covers_frags(3)]
  show ?case by (simp add: messagesText_def join_Cons)
qed

subsection \<open>The concrete inputs, evaluated\<close>

lemma getMessageFromEntry_msgEntry [simp]: "getMessageFromEntry (msgEntry i m) = Some m"
  by (simp add: getMessageFromEntry_def msgEntry_def)

lemma be_id_msgEntry [simp]: "be_id (msgEntry i m) = i" "be_type (msgEntry i m) = ''message''"
  by (simp_all add: msgEntry_def)

lemma userMsg_simps [simp]:
  "extractMessageText (userMsg s) = ''[Human]:'' @ [NL] @ s"
  "role (userMsg s) = ''user''"
  "hasToolResult (userMsg s) = False"
  "hasToolUse (userMsg s) = False"
  by (simp_all add: extractMessageText_def userMsg_def emptyMessage_def hasToolResult_def
        hasToolUse_def)

lemma toolCallMsg_simps [simp]:
  "extractMessageText (toolCallMsg n) =
     ''[AI]:'' @ [NL] @ ''[Tool: '' @ n @ '']'' @ [NL] @ ''<PRESERVE_VERBATIM>'' @ [NL] @ ''{}''
       @ [NL] @ ''</PRESERVE_VERBATIM>''"
  "role (toolCallMsg n) = ''assistant''"
  "hasToolResult (toolCallMsg n) = False"
  "hasToolUse (toolCallMsg n) = True"
  by (simp_all add: extractMessageText_def toolCallMsg_def emptyMessage_def hasToolResult_def
        hasToolUse_def assistantParts_def)

lemma toolResultMsg_simps [simp]:
  "length s \<le> 8000 \<Longrightarrow> extractMessageText (toolResultMsg s) = ''[Tool Result]:'' @ [NL] @ s"
  "role (toolResultMsg s) = ''toolResult''"
  "hasToolResult (toolResultMsg s) = True"
  "hasToolUse (toolResultMsg s) = False"
  by (simp_all add: extractMessageText_def toolResultMsg_def emptyMessage_def hasToolResult_def
        hasToolUse_def truncateLong_def)

lemma toolSpan_blocks:
  "map_option (map (map index \<circ> entries)) (groupEntriesIntoBlocks referencePlatform config20 toolSpan 0)
     = Some [[0], [1, 2], [3]]"
  by (simp add: groupEntriesIntoBlocks_def toolSpan_def config20_def DEFAULT_CONFIG_def
        maxTokensOf_def messagesText_def estimateTokens_def Let_def pairedResults_def
        entryTokens_def flushEntries_def)

lemma toolTurn_blocks:
  "map_option (map (map role \<circ> messages)) (groupMessagesIntoBlocks referencePlatform config20 toolTurn)
     = Some [[''user''], [''assistant''], [''toolResult'']]"
  by (simp add: groupMessagesIntoBlocks_def toolTurn_def config20_def DEFAULT_CONFIG_def
        maxTokensOf_def messagesText_def estimateTokens_def Let_def finalizeBlock_def)

subsection \<open>Tool exchanges inside a turn\<close>

lemma append_segment_cases:
  assumes "xs @ ys = p @ S @ q"
  obtains (left) q' where "xs = p @ S @ q'" "q = q' @ ys"
    | (right) p' where "ys = p' @ S @ q" "p = xs @ p'"
    | (straddle) S1 S2 where "S1 \<noteq> []" "S2 \<noteq> []" "S = S1 @ S2" "xs = p @ S1" "ys = S2 @ q"
proof -
  from assms consider
    (a) us where "xs = p @ us" "us @ ys = S @ q"
  | (b) us where "xs @ us = p" "ys = us @ S @ q"
    by (auto simp: append_eq_append_conv2)
  then show thesis
  proof cases
    case b
    then show thesis using right [of us] by simp
  next
    case a
    from a(2) consider
      (a1) vs where "us = S @ vs" "vs @ ys = q"
    | (a2) vs where "us @ vs = S" "ys = vs @ q"
      by (auto simp: append_eq_append_conv2)
    then show thesis
    proof cases
      case a1
      with a(1) show thesis using left [of vs] by simp
    next
      case a2
      show thesis
      proof (cases "us = []")
        case True
        with a a2 show thesis using right [of "[]"] by simp
      next
        case False
        show thesis
        proof (cases "vs = []")
          case True
          with a a2 show thesis using left [of "[]"] by simp
        next
          case vs: False
          from False vs a a2 show thesis using straddle [of us vs] by simp
        qed
      qed
    qed
  qed
qed

lemma turnCover_clean_start:
  "turnCover pf pre bs es \<Longrightarrow> es \<noteq> [] \<Longrightarrow> \<not> (hasToolResult (message (hd es)) \<and> inRun pre)"
  by (induction rule: turnCover.induct) auto

lemma turnCover_keeps_exchange:
  "turnCover pf pre bs es \<Longrightarrow> es = p @ (u # rs) @ q \<Longrightarrow> rs \<noteq> [] \<Longrightarrow>
   hasToolUse (message u) \<Longrightarrow> \<forall>r \<in> set rs. hasToolResult (message r) \<Longrightarrow>
   \<exists>blk \<in> set bs. \<exists>p' q'. entries blk = p' @ (u # rs) @ q'"
proof (induction arbitrary: p rule: turnCover.induct)
  case (turnCover_nil pre)
  then show ?case by simp
next
  case (turnCover_whole es pre bs rest)
  from turnCover_whole.prems(1) show ?case
  proof (cases rule: append_segment_cases)
    case (left q')
    then have "entries (finalizeEntryBlock pf es) = p @ (u # rs) @ q'" by simp
    then show ?thesis by (intro bexI [of _ "finalizeEntryBlock pf es"] exI) simp_all
  next
    case (right p')
    from turnCover_whole.IH [OF right(1) turnCover_whole.prems(2-4)]
    show ?thesis by auto
  next
    case (straddle S1 S2)
    from straddle(1,3) obtain rs1 where S1: "S1 = u # rs1" and rs: "rs = rs1 @ S2"
      by (cases S1) auto
    from straddle(2,5) have "rest \<noteq> []" and hd: "hd rest = hd S2" by auto
    from rs straddle(2) turnCover_whole.prems(4) have "hasToolResult (message (hd S2))"
      by (cases S2) auto
    moreover from rs turnCover_whole.prems(3,4) have "inRun ((pre @ p) @ u # rs1)"
      by (intro inRun_run) auto
    with straddle(4) S1 have "inRun (pre @ es)" by simp
    ultimately show ?thesis
      using turnCover_clean_start [OF turnCover_whole.hyps(3) \<open>rest \<noteq> []\<close>] hd by simp
  qed
next
  case (turnCover_frags chunks e pre bs rest)
  from turnCover_frags.prems(1) have "[e] @ rest = p @ (u # rs) @ q" by simp
  then show ?case
  proof (cases rule: append_segment_cases)
    case (left q')
    with turnCover_frags.prems(2) show ?thesis by (cases p) auto
  next
    case (right p')
    from turnCover_frags.IH [OF right(1) turnCover_frags.prems(2-4)]
    show ?thesis by auto
  next
    case (straddle S1 S2)
    from straddle(1,4) have "p = []" "S1 = [e]" by (cases p; auto)+
    with straddle(3) have e: "e = u" and rs: "rs = S2" by auto
    from straddle(2,5) have "rest \<noteq> []" and hd: "hd rest = hd S2" by auto
    from rs straddle(2) turnCover_frags.prems(4) have "hasToolResult (message (hd S2))"
      by (cases S2) auto
    moreover from e turnCover_frags.prems(3) have "inRun (pre @ [e])"
      by (simp add: inRun_snoc)
    ultimately show ?thesis
      using turnCover_clean_start [OF turnCover_frags.hyps(4) \<open>rest \<noteq> []\<close>] hd by simp
  qed
qed

subsection \<open>Tool exchanges across the turns of a span\<close>

lemma entryTurns_segments:
  "\<exists>segs. entryTurns rest i turns cur = turns @ segs
      \<and> concat segs = cur @ conversationEntries rest i
      \<and> turnsOK segs
      \<and> (cur \<noteq> [] \<longrightarrow> segs \<noteq> [] \<and> take (length cur) (hd segs) = cur)"
proof (induction rest arbitrary: i turns cur)
  case Nil
  show ?case by (cases "cur = []") simp_all
next
  case (Cons entry rest)
  let ?D = "conversationEntries rest (Suc i)"
  have same: "\<exists>segs. entryTurns rest (Suc i) turns cur = turns @ segs
      \<and> concat segs = cur @ ?D \<and> turnsOK segs
      \<and> (cur \<noteq> [] \<longrightarrow> segs \<noteq> [] \<and> take (length cur) (hd segs) = cur)"
    by (rule Cons.IH)
  have extend: "\<exists>segs. entryTurns rest (Suc i) turns (cur @ [x]) = turns @ segs
      \<and> concat segs = cur @ x # ?D \<and> turnsOK segs
      \<and> (segs \<noteq> [] \<and> take (length cur) (hd segs) = cur)" for x
  proof -
    from Cons.IH [of "Suc i" turns "cur @ [x]"]
    obtain segs where segs: "entryTurns rest (Suc i) turns (cur @ [x]) = turns @ segs"
      "concat segs = (cur @ [x]) @ ?D" "turnsOK segs" "segs \<noteq> []"
      "take (length (cur @ [x])) (hd segs) = cur @ [x]"
      by auto
    from segs(5) have "take (length cur) (take (length (cur @ [x])) (hd segs)) = cur"
      by simp
    then have "take (length cur) (hd segs) = cur" by (simp add: min_def)
    with segs show ?thesis by auto
  qed
  have fresh: "\<exists>segs. entryTurns rest (Suc i) (turns @ [cur]) [x] = turns @ segs
      \<and> concat segs = cur @ x # ?D \<and> turnsOK segs
      \<and> (segs \<noteq> [] \<and> take (length cur) (hd segs) = cur)"
    if "cur \<noteq> []" "newTurnAt (last cur) x" for x
  proof -
    from Cons.IH [of "Suc i" "turns @ [cur]" "[x]"]
    obtain segs where segs: "entryTurns rest (Suc i) (turns @ [cur]) [x] = (turns @ [cur]) @ segs"
      "concat segs = [x] @ ?D" "turnsOK segs" "segs \<noteq> []"
      "take (length [x]) (hd segs) = [x]"
      by auto
    from segs(4) obtain s ss where ss: "segs = s # ss" by (cases segs) auto
    with segs(5) have "hd s = x" by (cases s) auto
    with that segs(3) ss have "turnsOK (cur # segs)" by simp
    with segs show ?thesis by (intro exI [of _ "cur # segs"]) simp
  qed
  show ?case
  proof (cases "getMessageFromEntry entry")
    case None
    with same show ?thesis by simp
  next
    case (Some msg)
    let ?x = "\<lparr> index = i, id_e = be_id entry, message = msg \<rparr>"
    show ?thesis
    proof (cases "role msg = ''compactionSummary'' \<or> role msg = ''branchSummary''")
      case True
      with Some same show ?thesis by simp
    next
      case False
      show ?thesis
      proof (cases "role msg = ''user'' \<and> cur \<noteq> []
                    \<and> \<not> (hasToolResult msg \<and> hasToolUse (message (last cur)))")
        case True
        then have "newTurnAt (last cur) ?x" by (simp add: newTurnAt_def)
        from fresh [OF _ this] True Some False show ?thesis by auto
      next
        case notNew: False
        from extend [of ?x] Some False notNew show ?thesis by auto
      qed
    qed
  qed
qed

lemma turnsOK_keeps_exchange:
  "turnsOK segs \<Longrightarrow> concat segs = p @ (u # rs) @ q \<Longrightarrow> hasToolUse (message u) \<Longrightarrow>
   \<forall>r \<in> set rs. hasToolResult (message r) \<Longrightarrow>
   \<forall>r \<in> set (tl rs). role (message r) \<noteq> ''user'' \<Longrightarrow>
   \<exists>t \<in> set segs. \<exists>p' q'. t = p' @ (u # rs) @ q'"
proof (induction segs arbitrary: p)
  case Nil
  then show ?case by simp
next
  case (Cons t ts)
  from Cons.prems(1) have ts: "turnsOK ts" by (cases ts) simp_all
  from Cons.prems(2) have "t @ concat ts = p @ (u # rs) @ q" by simp
  then show ?case
  proof (cases rule: append_segment_cases)
    case (left q')
    then show ?thesis by auto
  next
    case (right p')
    from Cons.IH [OF ts right(1) Cons.prems(3-5)] show ?thesis by auto
  next
    case (straddle S1 S2)
    from straddle(1,3) obtain rs1 where S1: "S1 = u # rs1" and rs: "rs = rs1 @ S2"
      by (cases S1) auto
    from straddle(2,5) obtain t' ts' where ts': "ts = t' # ts'" by (cases ts) auto
    with Cons.prems(1) have t': "t' \<noteq> []" and new: "newTurnAt (last t) (hd t')"
      by (cases ts'; simp)+
    from t' ts' straddle(2,5) have hd: "hd t' = hd S2" by (cases t'; cases S2) auto
    from straddle(4) S1 have last: "last t = last (u # rs1)" by simp
    show ?thesis
    proof (cases "rs1 = []")
      case True
      with rs straddle(2) Cons.prems(4) have "hasToolResult (message (hd S2))"
        by (cases S2) auto
      with new hd last True Cons.prems(3) show ?thesis by (simp add: newTurnAt_def)
    next
      case False
      with rs straddle(2) have "hd S2 \<in> set (tl rs)" by (cases rs1; cases S2) auto
      with Cons.prems(5) new hd show ?thesis by (auto simp: newTurnAt_def)
    qed
  qed
qed

lemma splitEntryTurns_each:
  assumes mc: "0 < maxChars"
  shows "\<forall>t \<in> set turns. t \<noteq> [] \<Longrightarrow>
     splitEntryTurns pf maxTokens maxChars turns blocks = Some r \<Longrightarrow> t \<in> set turns \<Longrightarrow>
     finalizeEntryBlock pf t \<in> set r \<or> (\<exists>bsT. set bsT \<subseteq> set r \<and> turnCover pf [] bsT t)"
proof (induction turns arbitrary: blocks)
  case Nil
  then show ?case by simp
next
  case (Cons t0 ts)
  from Cons.prems(1) have ts: "\<forall>t \<in> set ts. t \<noteq> []" by simp
  have sub: "set b0 \<subseteq> set r" if "splitEntryTurns pf maxTokens maxChars ts b0 = Some r" for b0
    using splitEntryTurns_covers [OF mc ts, of pf maxTokens b0] that by auto
  show ?case
  proof (cases "estimateTokens (messagesText (map message t0)) \<le> maxTokens")
    case True
    with Cons.prems(2)
    have run: "splitEntryTurns pf maxTokens maxChars ts (blocks @ [finalizeEntryBlock pf t0]) = Some r"
      by simp
    show ?thesis
    proof (cases "t = t0")
      case True
      with sub [OF run] show ?thesis by auto
    next
      case False
      with Cons.prems(3) have "t \<in> set ts" by simp
      from Cons.IH [OF ts run this] show ?thesis .
    qed
  next
    case False
    from splitEntries_total [OF mc, of pf maxTokens t0 blocks "[]" 0]
    obtain r0 where r0: "splitEntries pf maxTokens maxChars t0 blocks [] 0 = Some r0" by blast
    with False Cons.prems(2)
    have run: "splitEntryTurns pf maxTokens maxChars ts r0 = Some r" by simp
    show ?thesis
    proof (cases "t = t0")
      case True
      have "\<exists>new. r0 = blocks @ new \<and> turnCover pf [] new ([] @ t0)"
        by (rule splitEntries_turnCover [OF mc r0]) (simp_all add: inRun_def)
      then obtain new where "r0 = blocks @ new" "turnCover pf [] new t0" by auto
      with sub [OF run] True show ?thesis by auto
    next
      case False
      with Cons.prems(3) have "t \<in> set ts" by simp
      from Cons.IH [OF ts run this] show ?thesis .
    qed
  qed
qed

lemma groupEntriesIntoBlocks_keeps_exchange:
  assumes span: "spanEntries es startIndex = p @ (u # rs) @ q"
    and rs: "rs \<noteq> []"
    and use: "hasToolUse (message u)"
    and res: "\<forall>r \<in> set rs. hasToolResult (message r)"
    and nonuser: "\<forall>r \<in> set (tl rs). role (message r) \<noteq> ''user''"
  shows "\<exists>bs. groupEntriesIntoBlocks pf cfg es startIndex = Some bs
        \<and> (\<exists>blk \<in> set bs. \<exists>p' q'. entries blk = p' @ (u # rs) @ q')"
proof -
  let ?turns = "entryTurns (drop startIndex es) startIndex [] []"
  have mc: "0 < maxTokensOf cfg * 4" using maxTokensOf_pos [of cfg] by simp
  have ne: "\<forall>t \<in> set ?turns. t \<noteq> []" by (rule entryTurns_nonempty) simp
  from entryTurns_segments [of "drop startIndex es" startIndex "[]" "[]"]
  have ok: "turnsOK ?turns" and cc: "concat ?turns = spanEntries es startIndex"
    by (auto simp: spanEntries_def)
  from turnsOK_keeps_exchange [OF ok _ use res nonuser, of p q] cc span
  obtain t p1 q1 where t: "t \<in> set ?turns" "t = p1 @ (u # rs) @ q1" by auto
  from groupEntriesIntoBlocks_covers [of pf cfg es startIndex]
  obtain bs where bs: "groupEntriesIntoBlocks pf cfg es startIndex = Some bs" by blast
  then have run: "splitEntryTurns pf (maxTokensOf cfg) (maxTokensOf cfg * 4) ?turns [] = Some bs"
    by (simp add: groupEntriesIntoBlocks_def Let_def)
  from splitEntryTurns_each [OF mc ne run t(1)]
  have "\<exists>blk \<in> set bs. \<exists>p' q'. entries blk = p' @ (u # rs) @ q'"
  proof
    assume "finalizeEntryBlock pf t \<in> set bs"
    moreover have "entries (finalizeEntryBlock pf t) = p1 @ (u # rs) @ q1" using t(2) by simp
    ultimately show ?thesis by blast
  next
    assume "\<exists>bsT. set bsT \<subseteq> set bs \<and> turnCover pf [] bsT t"
    then obtain bsT where bsT: "set bsT \<subseteq> set bs" "turnCover pf [] bsT t" by blast
    from turnCover_keeps_exchange [OF bsT(2) t(2) rs use res] bsT(1)
    show ?thesis by blast
  qed
  with bs show ?thesis by blast
qed

subsection \<open>Facts about the eviction\<close>

lemma archiveEvictedBlock_fields [simp]:
  "compactionHistory (archiveEvictedBlock pf e st) = compactionHistory st"
  "config (archiveEvictedBlock pf e st) = config st"
  "currentSessionId (archiveEvictedBlock pf e st) = currentSessionId st"
  "messageCache (archiveEvictedBlock pf e st) = messageCache st"
  "rawArchive (archiveEvictedBlock pf e st) = rawArchive st"
  "deferredCompactionMinBlocks (archiveEvictedBlock pf e st) = deferredCompactionMinBlocks st"
  by (simp_all add: archiveEvictedBlock_def Let_def)

lemma archiveHeader_cong:
  "currentSessionId st = currentSessionId st' \<Longrightarrow> archiveHeader pf st e = archiveHeader pf st' e"
  by (simp add: archiveHeader_def)

lemma archiveEvictedBlock_keeps:
  "memoryArchive st f = Some c \<Longrightarrow> memoryArchive (archiveEvictedBlock pf e st) f = Some c"
  by (auto simp: archiveEvictedBlock_def Let_def)

lemma historyTotal_Cons:
  "historyTotal (e # h) = historyTotal h + tokensCompressed e + overheadPerBlock"
proof -
  have "\<And>a. foldl (\<lambda>sum e. sum + tokensCompressed e + overheadPerBlock) a h
          = a + foldl (\<lambda>sum e. sum + tokensCompressed e + overheadPerBlock) 0 h"
  proof (induction h)
    case Nil show ?case by simp
  next
    case (Cons x xs)
    show ?case
      using Cons.IH [of "a + tokensCompressed x + overheadPerBlock"]
            Cons.IH [of "tokensCompressed x + overheadPerBlock"]
      by simp
  qed
  from this [of "tokensCompressed e + overheadPerBlock"]
  show ?thesis by (simp add: historyTotal_def)
qed

lemma evictLoop_spec:
  "evictLoop pf tot st = (tot', st') \<Longrightarrow> tot = historyTotal (compactionHistory st) \<Longrightarrow>
   tot' = historyTotal (compactionHistory st') \<and>
   (tot' \<le> evictTrigger (config st) \<or> compactionHistory st' = []) \<and>
   (\<exists>k \<le> length (compactionHistory st).
      compactionHistory st' = drop k (compactionHistory st) \<and>
      (\<forall>j < k. historyTotal (drop j (compactionHistory st)) > evictTrigger (config st)) \<and>
      (\<forall>e \<in> set (take k (compactionHistory st)).
         memoryArchive st (archiveName pf e) = None \<longrightarrow>
         (\<exists>e' \<in> set (take k (compactionHistory st)).
             archiveName pf e' = archiveName pf e \<and>
             memoryArchive st' (archiveName pf e) = Some (archiveHeader pf st e' @ compressed e')))) \<and>
   (\<forall>f c. memoryArchive st f = Some c \<longrightarrow> memoryArchive st' f = Some c) \<and>
   config st' = config st \<and> messageCache st' = messageCache st \<and>
   currentSessionId st' = currentSessionId st \<and> rawArchive st' = rawArchive st \<and>
   deferredCompactionMinBlocks st' = deferredCompactionMinBlocks st"
proof (induction pf tot st arbitrary: tot' st' rule: evictLoop.induct)
  case (1 pf totalTokens st)
  show ?case
  proof (cases "compactionHistory st")
    case Nil
    with "1.prems" show ?thesis by (simp add: evictLoop.simps [of pf totalTokens st])
  next
    case (Cons oldest rest)
    show ?thesis
    proof (cases "totalTokens > evictTrigger (config st)")
      case False
      with Cons "1.prems" have "tot' = totalTokens" "st' = st"
        by (simp_all add: evictLoop.simps [of pf totalTokens st])
      with False "1.prems"(2) show ?thesis
        by (auto intro!: exI [of _ 0])
    next
      case True
      let ?st1 = "archiveEvictedBlock pf oldest (st\<lparr> compactionHistory := rest \<rparr>)"
      let ?t1 = "totalTokens - (tokensCompressed oldest + overheadPerBlock)"
      from Cons True "1.prems"(1) have run: "evictLoop pf ?t1 ?st1 = (tot', st')"
        by (simp add: evictLoop.simps [of pf totalTokens st])
      have t1: "?t1 = historyTotal (compactionHistory ?st1)"
        using "1.prems"(2) Cons by (simp add: historyTotal_Cons)
      have hdr: "\<And>e. archiveHeader pf ?st1 e = archiveHeader pf st e"
        by (rule archiveHeader_cong) simp
      note IH = "1.IH" [OF Cons True run t1]
      from IH have "\<exists>k \<le> length rest. compactionHistory st' = drop k rest \<and>
        (\<forall>j < k. historyTotal (drop j rest) > evictTrigger (config st)) \<and>
        (\<forall>e \<in> set (take k rest).
           memoryArchive ?st1 (archiveName pf e) = None \<longrightarrow>
           (\<exists>e' \<in> set (take k rest).
             archiveName pf e' = archiveName pf e \<and>
             memoryArchive st' (archiveName pf e) = Some (archiveHeader pf st e' @ compressed e')))"
        by (simp add: hdr)
      then obtain k where k: "k \<le> length rest" "compactionHistory st' = drop k rest"
        "\<forall>j < k. historyTotal (drop j rest) > evictTrigger (config st)"
        and arch: "\<forall>e \<in> set (take k rest).
           memoryArchive ?st1 (archiveName pf e) = None \<longrightarrow>
           (\<exists>e' \<in> set (take k rest).
             archiveName pf e' = archiveName pf e \<and>
             memoryArchive st' (archiveName pf e) = Some (archiveHeader pf st e' @ compressed e'))"
        by blast
      from IH have keep1: "\<forall>f c. memoryArchive ?st1 f = Some c \<longrightarrow> memoryArchive st' f = Some c"
        by blast
      have w: "memoryArchive st (archiveName pf oldest) = None \<Longrightarrow>
         memoryArchive ?st1 (archiveName pf oldest) = Some (archiveHeader pf st oldest @ compressed oldest)"
        by (simp add: archiveEvictedBlock_def Let_def archiveHeader_def)
      have keep0: "\<And>f c. memoryArchive st f = Some c \<Longrightarrow> memoryArchive ?st1 f = Some c"
        by (rule archiveEvictedBlock_keeps) simp
      have other: "\<And>f. f \<noteq> archiveName pf oldest \<Longrightarrow> memoryArchive ?st1 f = memoryArchive st f"
        by (simp add: archiveEvictedBlock_def Let_def)
      have A: "\<forall>j < Suc k. historyTotal (drop j (compactionHistory st)) > evictTrigger (config st)"
      proof (intro allI impI)
        fix j assume "j < Suc k"
        show "historyTotal (drop j (compactionHistory st)) > evictTrigger (config st)"
        proof (cases j)
          case 0 with True "1.prems"(2) show ?thesis by simp
        next
          case (Suc j') with \<open>j < Suc k\<close> k(3) Cons show ?thesis by simp
        qed
      qed
      have B: "\<forall>e \<in> set (take (Suc k) (compactionHistory st)).
         memoryArchive st (archiveName pf e) = None \<longrightarrow>
         (\<exists>e' \<in> set (take (Suc k) (compactionHistory st)).
             archiveName pf e' = archiveName pf e \<and>
             memoryArchive st' (archiveName pf e) = Some (archiveHeader pf st e' @ compressed e'))"
      proof (intro ballI impI)
        fix e assume e: "e \<in> set (take (Suc k) (compactionHistory st))"
          and None: "memoryArchive st (archiveName pf e) = None"
        show "\<exists>e' \<in> set (take (Suc k) (compactionHistory st)).
             archiveName pf e' = archiveName pf e \<and>
             memoryArchive st' (archiveName pf e) = Some (archiveHeader pf st e' @ compressed e')"
        proof (cases "archiveName pf e = archiveName pf oldest")
          case True
          with None w have "memoryArchive ?st1 (archiveName pf e) =
              Some (archiveHeader pf st oldest @ compressed oldest)" by simp
          with keep1 have "memoryArchive st' (archiveName pf e) =
              Some (archiveHeader pf st oldest @ compressed oldest)" by blast
          with True Cons show ?thesis by (auto intro!: bexI [of _ oldest])
        next
          case False
          with e Cons have e': "e \<in> set (take k rest)" by auto
          from False None other have "memoryArchive ?st1 (archiveName pf e) = None" by simp
          with arch e' obtain e2 where "e2 \<in> set (take k rest)"
            "archiveName pf e2 = archiveName pf e"
            "memoryArchive st' (archiveName pf e) = Some (archiveHeader pf st e2 @ compressed e2)"
            by blast
          with Cons show ?thesis by (auto intro!: bexI [of _ e2])
        qed
      qed
      have C: "Suc k \<le> length (compactionHistory st)"
        "compactionHistory st' = drop (Suc k) (compactionHistory st)"
        using k Cons by simp_all
      from IH have D: "tot' = historyTotal (compactionHistory st')"
        "tot' \<le> evictTrigger (config st) \<or> compactionHistory st' = []"
        "config st' = config st" "messageCache st' = messageCache st"
        "currentSessionId st' = currentSessionId st" "rawArchive st' = rawArchive st"
        "deferredCompactionMinBlocks st' = deferredCompactionMinBlocks st"
        by auto
      from keep0 keep1 have E: "\<forall>f c. memoryArchive st f = Some c \<longrightarrow> memoryArchive st' f = Some c"
        by blast
      from A B C D E show ?thesis by blast
    qed
  qed
qed

lemma evictionState_run:
  "fst (applyFifoEviction referencePlatform evictionState) = 45"
  "map compressed (compactionHistory (snd (applyFifoEviction referencePlatform evictionState)))
     = [''three'']"
  "dom (memoryArchive (snd (applyFifoEviction referencePlatform evictionState)))
     = {''rmem-2026-02-20-two.md'', ''rmem-2026-02-20-one.md''}"
  by (simp_all add: applyFifoEviction_def evictionState_def readyState_def historyEntry_def
        historyTotal_def baseOverhead_def overheadPerBlock_def DEFAULT_CONFIG_def
        evictLoop.simps archiveEvictedBlock_def archiveName_def referencePlatform_def Let_def)

subsection \<open>Facts about the lookup and the on-demand compression\<close>

lemma archiveRawBlock_fields [simp]:
  "config (archiveRawBlock h t st) = config st"
  "completeSimple (archiveRawBlock h t st) = completeSimple st"
  "resolvedApiKey (archiveRawBlock h t st) = resolvedApiKey st"
  "currentSessionId (archiveRawBlock h t st) = currentSessionId st"
  "compactionHistory (archiveRawBlock h t st) = compactionHistory st"
  "messageCache (archiveRawBlock h t st) = messageCache st"
  "compressionQueue (archiveRawBlock h t st) = compressionQueue st"
  "deferredCompactionMinBlocks (archiveRawBlock h t st) = deferredCompactionMinBlocks st"
  "memoryArchive (archiveRawBlock h t st) = memoryArchive st"
  "capable (archiveRawBlock h t st) = capable st"
  by (simp_all add: archiveRawBlock_def Let_def capable_def)

lemma trackSession_fields [simp]:
  "config (trackSession es st) = config st"
  "completeSimple (trackSession es st) = completeSimple st"
  "resolvedApiKey (trackSession es st) = resolvedApiKey st"
  "messageCache (trackSession es st) = messageCache st"
  "deferredCompactionMinBlocks (trackSession es st) = deferredCompactionMinBlocks st"
  "rawArchive (trackSession es st) = rawArchive st"
  "memoryArchive (trackSession es st) = memoryArchive st"
  "capable (trackSession es st) = capable st"
  by (simp_all add: trackSession_def Let_def capable_def)

lemma preservePrevious_fields [simp]:
  "config (preservePrevious ev es st) = config st"
  "completeSimple (preservePrevious ev es st) = completeSimple st"
  "resolvedApiKey (preservePrevious ev es st) = resolvedApiKey st"
  "messageCache (preservePrevious ev es st) = messageCache st"
  "rawArchive (preservePrevious ev es st) = rawArchive st"
  "capable (preservePrevious ev es st) = capable st"
  by (simp_all add: preservePrevious_def capable_def split: option.splits)

lemma compressSingleBlock_cong:
  "config st' = config st \<Longrightarrow> capable st' = capable st \<Longrightarrow>
   compressSingleBlock ev st' t = compressSingleBlock ev st t"
  by (simp add: compressSingleBlock_def)

lemma onDemandResult_cong:
  "config st' = config st \<Longrightarrow> capable st' = capable st \<Longrightarrow>
   block_text b' = block_text b \<Longrightarrow> block_tokens b' = block_tokens b \<Longrightarrow>
   onDemandResult ev st' b' = onDemandResult ev st b"
  by (cases "compressSingleBlock ev st (block_text b)")
     (simp_all add: onDemandResult_def compressSingleBlock_cong [of st' st])

lemma storeResult_cache:
  "messageCache (fst (storeResult ev acc x)) h =
     (if h = block_hash x then Some (onDemandResult ev (fst acc) x)
      else messageCache (fst acc) h)"
  by (simp add: storeResult_def Let_def)

lemma lookupSwapped_spec:
  "lookupSwapped toSwap st slots missed = (st', slots', missed') \<Longrightarrow>
   slots' = slots @ map (\<lambda>b. \<lparr> s_hash = block_hash b, s_result = messageCache st (block_hash b) \<rparr>) toSwap
   \<and> missed' = missed @ missedFrom (messageCache st) (length slots) toSwap
   \<and> messageCache st' = messageCache st \<and> config st' = config st \<and> capable st' = capable st
   \<and> compactionHistory st' = compactionHistory st
   \<and> currentSessionId st' = currentSessionId st"
proof (induction toSwap arbitrary: st slots missed)
  case Nil
  then show ?case by simp
next
  case (Cons b bs)
  let ?st1 = "archiveRawBlock (block_hash b) (block_text b) st"
  show ?case
  proof (cases "messageCache st (block_hash b)")
    case None
    with Cons.prems have "lookupSwapped bs ?st1
        (slots @ [\<lparr> s_hash = block_hash b, s_result = None \<rparr>])
        (missed @ [\<lparr> block_text = block_text b, block_hash = block_hash b,
                      block_tokens = block_tokens b, slotIndex = length slots \<rparr>])
      = (st', slots', missed')"
      by (simp add: Let_def)
    from Cons.IH [OF this] None show ?thesis by simp
  next
    case (Some c)
    with Cons.prems have "lookupSwapped bs ?st1
        (slots @ [\<lparr> s_hash = block_hash b, s_result = Some c \<rparr>]) missed
      = (st', slots', missed')"
      by (simp add: Let_def)
    from Cons.IH [OF this] Some show ?thesis by simp
  qed
qed

lemma storeResult_fields [simp]:
  "config (fst (storeResult ev acc m)) = config (fst acc)"
  "capable (fst (storeResult ev acc m)) = capable (fst acc)"
  "compactionHistory (fst (storeResult ev acc m)) = compactionHistory (fst acc)"
  "currentSessionId (fst (storeResult ev acc m)) = currentSessionId (fst acc)"
  "length (snd (storeResult ev acc m)) = length (snd acc)"
  by (simp_all add: storeResult_def Let_def capable_def)

lemma foldl_storeResult_fields:
  "config (fst (foldl (storeResult ev) acc ms)) = config (fst acc)
   \<and> capable (fst (foldl (storeResult ev) acc ms)) = capable (fst acc)
   \<and> compactionHistory (fst (foldl (storeResult ev) acc ms)) = compactionHistory (fst acc)
   \<and> currentSessionId (fst (foldl (storeResult ev) acc ms)) = currentSessionId (fst acc)
   \<and> length (snd (foldl (storeResult ev) acc ms)) = length (snd acc)"
  by (induction ms arbitrary: acc) simp_all

text \<open>The slots after all misses are stored.\<close>

lemma foldl_storeResult_slots:
  "config st = config st0 \<Longrightarrow> capable st = capable st0 \<Longrightarrow>
   snd (foldl (storeResult ev)
          (st, pre @ map (\<lambda>b. \<lparr> s_hash = block_hash b, s_result = cache (block_hash b) \<rparr>) bs)
          (missedFrom cache (length pre) bs))
   = pre @ map (\<lambda>b. \<lparr> s_hash = block_hash b,
                      s_result = Some (case cache (block_hash b) of
                                         Some c \<Rightarrow> c
                                       | None \<Rightarrow> onDemandResult ev st0 b) \<rparr>) bs"
proof (induction bs arbitrary: st pre)
  case Nil
  then show ?case by simp
next
  case (Cons b bs)
  show ?case
  proof (cases "cache (block_hash b)")
    case (Some c)
    from Cons.IH [OF Cons.prems, of "pre @ [\<lparr> s_hash = block_hash b, s_result = Some c \<rparr>]"] Some
    show ?thesis by simp
  next
    case None
    let ?m = "\<lparr> block_text = block_text b, block_hash = block_hash b,
                 block_tokens = block_tokens b, slotIndex = length pre \<rparr>"
    let ?tail = "map (\<lambda>b. \<lparr> s_hash = block_hash b, s_result = cache (block_hash b) \<rparr>) bs"
    let ?x = "\<lparr> s_hash = block_hash b, s_result = Some (onDemandResult ev st0 b) \<rparr>"
    have od: "onDemandResult ev st ?m = onDemandResult ev st0 b"
      by (rule onDemandResult_cong) (simp_all add: Cons.prems)
    have step: "storeResult ev (st, pre @ \<lparr> s_hash = block_hash b, s_result = None \<rparr> # ?tail) ?m
        = (st\<lparr> messageCache := (messageCache st)(block_hash b \<mapsto> onDemandResult ev st0 b) \<rparr>,
           (pre @ [?x]) @ ?tail)"
      by (simp add: storeResult_def Let_def od list_update_append)
    have c: "config (st\<lparr> messageCache := (messageCache st)(block_hash b \<mapsto> onDemandResult ev st0 b) \<rparr>)
        = config st0"
      "capable (st\<lparr> messageCache := (messageCache st)(block_hash b \<mapsto> onDemandResult ev st0 b) \<rparr>)
        = capable st0"
      using Cons.prems by (simp_all add: capable_def)
    from Cons.IH [OF c, of "pre @ [?x]"] None step
    show ?thesis by simp
  qed
qed

text \<open>The cache after the misses are stored.\<close>

lemma foldl_storeResult_cache:
  "config (fst acc) = config st0 \<Longrightarrow> capable (fst acc) = capable st0 \<Longrightarrow>
   messageCache (fst (foldl (storeResult ev) acc ms)) h = Some e \<Longrightarrow>
   messageCache (fst acc) h = Some e
   \<or> (\<exists>m \<in> set ms. h = block_hash m \<and> e = onDemandResult ev st0 m)"
proof (induction ms arbitrary: acc)
  case Nil
  then show ?case by simp
next
  case (Cons m ms)
  have c: "config (fst (storeResult ev acc m)) = config st0"
    "capable (fst (storeResult ev acc m)) = capable st0"
    using Cons.prems by simp_all
  from Cons.IH [OF c] Cons.prems(3)
  consider "messageCache (fst (storeResult ev acc m)) h = Some e"
    | "\<exists>m \<in> set ms. h = block_hash m \<and> e = onDemandResult ev st0 m"
    by auto
  then show ?case
  proof cases
    case 1
    have "onDemandResult ev (fst acc) m = onDemandResult ev st0 m"
      by (rule onDemandResult_cong) (simp_all add: Cons.prems)
    with 1 show ?thesis
      by (auto simp: storeResult_cache split: if_splits)
  next
    case 2
    then show ?thesis by auto
  qed
qed

lemma foldl_storeResult_stored:
  "config (fst acc) = config st0 \<Longrightarrow> capable (fst acc) = capable st0 \<Longrightarrow> m \<in> set ms \<Longrightarrow>
   \<exists>m' \<in> set ms. block_hash m' = block_hash m
      \<and> messageCache (fst (foldl (storeResult ev) acc ms)) (block_hash m)
          = Some (onDemandResult ev st0 m')"
proof (induction ms arbitrary: acc rule: rev_induct)
  case Nil
  then show ?case by simp
next
  case (snoc x xs)
  let ?acc = "foldl (storeResult ev) acc xs"
  have f: "config (fst ?acc) = config st0" "capable (fst ?acc) = capable st0"
    using foldl_storeResult_fields [of ev acc xs] snoc.prems by simp_all
  have od: "onDemandResult ev (fst ?acc) x = onDemandResult ev st0 x"
    by (rule onDemandResult_cong) (simp_all add: f)
  show ?case
  proof (cases "block_hash x = block_hash m")
    case True
    then show ?thesis by (auto simp: storeResult_cache od)
  next
    case False
    with snoc.prems(3) have "m \<in> set xs" by auto
    from snoc.IH [OF snoc.prems(1,2) this] False
    show ?thesis by (auto simp: storeResult_cache)
  qed
qed

lemma missedFrom_blocks:
  "m \<in> set (missedFrom cache n bs) \<Longrightarrow>
   \<exists>b \<in> set bs. cache (block_hash b) = None \<and> block_hash m = block_hash b
      \<and> block_text m = block_text b \<and> block_tokens m = block_tokens b"
  by (induction bs arbitrary: n) (auto split: option.splits)

lemma missedFrom_complete:
  "b \<in> set bs \<Longrightarrow> cache (block_hash b) = None \<Longrightarrow>
   \<exists>m \<in> set (missedFrom cache n bs). block_hash m = block_hash b
      \<and> block_text m = block_text b \<and> block_tokens m = block_tokens b"
  by (induction bs arbitrary: n) (auto split: option.splits)

lemma compressMissed_result_aux:
  assumes "compressMissed ev maxParallel missed i n acc = Some y"
  shows "\<forall>st3 slots n'. y = Inr (st3, slots, n') \<longrightarrow>
     (st3, slots) = foldl (storeResult ev) acc (drop i missed)"
proof (rule compressMissed.raw_induct
    [where P = "\<lambda>ev maxParallel missed i n acc y.
       \<forall>st3 slots n'. y = Inr (st3, slots, n') \<longrightarrow>
         (st3, slots) = foldl (storeResult ev) acc (drop i missed)", OF _ assms])
  fix cm ev maxParallel missedBlocks i n acc y
  assume IH: "\<And>ev maxParallel missedBlocks i n acc y.
      cm ev maxParallel missedBlocks i n acc = Some y \<Longrightarrow>
      \<forall>st3 slots n'. y = Inr (st3, slots, n') \<longrightarrow>
        (st3, slots) = foldl (storeResult ev) acc (drop i missedBlocks)"
    and eq: "(if i < length missedBlocks then
        (if aborted ev n then Some (Inl (fst acc))
         else cm ev maxParallel missedBlocks (i + maxParallel) (Suc n)
                (foldl (storeResult ev) acc (take maxParallel (drop i missedBlocks))))
      else Some (Inr (fst acc, snd acc, n))) = Some y"
  show "\<forall>st3 slots n'. y = Inr (st3, slots, n') \<longrightarrow>
         (st3, slots) = foldl (storeResult ev) acc (drop i missedBlocks)"
  proof (cases "i < length missedBlocks")
    case False
    with eq show ?thesis by auto
  next
    case True
    show ?thesis
    proof (cases "aborted ev n")
      case True
      with \<open>i < length missedBlocks\<close> eq show ?thesis by auto
    next
      case False
      let ?acc = "foldl (storeResult ev) acc (take maxParallel (drop i missedBlocks))"
      from False True eq
      have "cm ev maxParallel missedBlocks (i + maxParallel) (Suc n) ?acc = Some y"
        by simp
      from IH [OF this]
      have ih: "\<forall>st3 slots n'. y = Inr (st3, slots, n') \<longrightarrow>
          (st3, slots) = foldl (storeResult ev) ?acc (drop (i + maxParallel) missedBlocks)" .
      have "foldl (storeResult ev) acc (drop i missedBlocks)
          = foldl (storeResult ev) acc
              (take maxParallel (drop i missedBlocks) @ drop maxParallel (drop i missedBlocks))"
        by (simp only: append_take_drop_id)
      also have "\<dots> = foldl (storeResult ev) ?acc (drop maxParallel (drop i missedBlocks))"
        by (simp only: foldl_append)
      also have "drop maxParallel (drop i missedBlocks) = drop (i + maxParallel) missedBlocks"
        by (simp add: add.commute)
      finally have "foldl (storeResult ev) acc (drop i missedBlocks)
          = foldl (storeResult ev) ?acc (drop (i + maxParallel) missedBlocks)" .
      with ih show ?thesis by (simp only:)
    qed
  qed
qed

lemma compressMissed_result:
  "compressMissed ev maxParallel missed i n acc = Some (Inr (st3, slots, n')) \<Longrightarrow>
   (st3, slots) = foldl (storeResult ev) acc (drop i missed)"
  using compressMissed_result_aux by blast

lemma compressMissed_total:
  "0 < maxParallel \<Longrightarrow> \<exists>y. compressMissed ev maxParallel missed i n acc = Some y"
proof (induction "length missed - i" arbitrary: i n acc rule: less_induct)
  case less
  show ?case
  proof (cases "i < length missed")
    case False
    then show ?thesis by (subst compressMissed.simps) simp
  next
    case True
    with less.prems have "length missed - (i + maxParallel) < length missed - i" by simp
    from less.hyps [OF this less.prems]
    show ?thesis by (subst compressMissed.simps) simp
  qed
qed

subsection \<open>Facts about the second half of the handler\<close>

lemma compressedParts_resolved:
  "compressedParts (map (\<lambda>b. \<lparr> s_hash = block_hash b, s_result = Some (f b) \<rparr>) bs)
     = map (\<lambda>b. compressed (f b)) bs"
  by (induction bs) (simp_all add: compressedParts_def)

lemma save_fields [simp]:
  "messageCache (saveMessageCache st) = messageCache st"
  "compactionHistory (saveMessageCache st) = compactionHistory st"
  "cacheFile (saveMessageCache st) = Some (messageCache st)"
  "messageCache (saveCompactionHistory st) = messageCache st"
  "compactionHistory (saveCompactionHistory st) = compactionHistory st"
  by (simp_all add: saveMessageCache_def saveCompactionHistory_def)

lemma applyFifoEviction_fields:
  "\<exists>kE. compactionHistory (snd (applyFifoEviction pf st)) = drop kE (compactionHistory st)"
  "messageCache (snd (applyFifoEviction pf st)) = messageCache st"
proof -
  obtain tot' st' where run: "evictLoop pf (historyTotal (compactionHistory st)) st = (tot', st')"
    by (cases "evictLoop pf (historyTotal (compactionHistory st)) st")
  from evictLoop_spec [OF run refl] run
  show "\<exists>kE. compactionHistory (snd (applyFifoEviction pf st)) = drop kE (compactionHistory st)"
    "messageCache (snd (applyFifoEviction pf st)) = messageCache st"
    by (auto simp: applyFifoEviction_def)
qed

lemma assemble_spec:
  assumes "assemble pf ev evt toSwap fk st slots = (r, st')"
  shows "r = Compaction (renderHistory pf (compactionHistory st')) fk (tokensBefore evt)
    \<and> (\<exists>kE. compactionHistory st' = drop kE (compactionHistory st @
          [\<lparr> compressed = join separator (compressedParts slots),
             tokensRaw = sum_list (map block_tokens toSwap),
             tokensCompressed = estimateTokens (join separator (compressedParts slots)),
             timestamp = nowAppend ev \<rparr>]))
    \<and> messageCache st' = messageCache st
    \<and> cacheFile st' = Some (messageCache st')"
proof -
  let ?st1 = "st\<lparr> compactionHistory := compactionHistory st @
          [\<lparr> compressed = join separator (compressedParts slots),
             tokensRaw = sum_list (map block_tokens toSwap),
             tokensCompressed = estimateTokens (join separator (compressedParts slots)),
             timestamp = nowAppend ev \<rparr>] \<rparr>"
  from assms have st': "st' = saveMessageCache (saveCompactionHistory (snd (applyFifoEviction pf ?st1)))"
    and r: "r = Compaction (renderHistory pf (compactionHistory st')) fk (tokensBefore evt)"
    by (auto simp: assemble_def Let_def)
  from applyFifoEviction_fields [of pf ?st1] st' r show ?thesis by auto
qed

lemma foldl_storeResult_keeps:
  "messageCache (fst acc) h = Some e \<Longrightarrow> \<forall>m \<in> set ms. block_hash m \<noteq> h \<Longrightarrow>
   messageCache (fst (foldl (storeResult ev) acc ms)) h = Some e"
proof (induction ms arbitrary: acc)
  case Nil
  then show ?case by simp
next
  case (Cons m ms)
  from Cons.prems have "messageCache (fst (storeResult ev acc m)) h = Some e"
    by (auto simp: storeResult_cache)
  from Cons.IH [OF this] Cons.prems(2) show ?case by simp
qed

lemma swapBlocks_spec:
  assumes run: "swapBlocks pf ev evt toSwap fk st = Some (Compaction s fk' tb, st')"
  shows "fk' = fk \<and> tb = tokensBefore evt \<and> s = renderHistory pf (compactionHistory st')
    \<and> (\<exists>hist kE. compactionHistory st' = drop kE (hist @ [roundEntry ev st toSwap]))
    \<and> (\<forall>h e. messageCache st' h = Some e \<longrightarrow>
          messageCache st h = Some e
          \<or> (\<exists>b \<in> set toSwap. messageCache st (block_hash b) = None \<and> h = block_hash b
                \<and> e = onDemandResult ev st b))
    \<and> (\<forall>b \<in> set toSwap. messageCache st (block_hash b) = None \<longrightarrow>
          (\<exists>b' \<in> set toSwap. block_hash b' = block_hash b
              \<and> messageCache st (block_hash b') = None
              \<and> messageCache st' (block_hash b) = Some (onDemandResult ev st b')))
    \<and> (\<forall>h e. messageCache st h = Some e \<longrightarrow> messageCache st' h = Some e)
    \<and> cacheFile st' = Some (messageCache st')"
proof -
  let ?st1 = "preservePrevious ev (branchEntries evt) st"
  let ?cache = "messageCache st"
  obtain st2 slots0 missed where look: "lookupSwapped toSwap ?st1 [] [] = (st2, slots0, missed)"
    by (cases "lookupSwapped toSwap ?st1 [] []") auto
  from lookupSwapped_spec [OF look]
  have slots0: "slots0 = map (\<lambda>b. \<lparr> s_hash = block_hash b, s_result = ?cache (block_hash b) \<rparr>) toSwap"
    and missed: "missed = missedFrom ?cache 0 toSwap"
    and st2: "messageCache st2 = ?cache" "config st2 = config st" "capable st2 = capable st"
    by simp_all
  from run look have nab: "\<not> aborted ev 0" by (auto simp: swapBlocks_def Let_def)
  with run look obtain st3 slots n where
    cm: "compressMissed ev (maxParallelCompressions (config st2)) missed 0 1 (st2, slots0)
          = Some (Inr (st3, slots, n))"
    and fin: "assemble pf ev evt toSwap fk st3 slots = (Compaction s fk' tb, st')"
    by (auto simp: swapBlocks_def Let_def split: option.splits sum.splits if_splits)
  from compressMissed_result [OF cm]
  have fold: "(st3, slots) = foldl (storeResult ev) (st2, slots0) missed" by simp
  then have st3: "st3 = fst (foldl (storeResult ev) (st2, slots0) missed)"
    and slots: "slots = snd (foldl (storeResult ev) (st2, slots0) missed)"
    by (metis fst_conv, metis snd_conv)
  from foldl_storeResult_slots [OF st2(2,3), of ev "[]" ?cache toSwap] slots slots0 missed
  have slots': "slots = map (\<lambda>b. \<lparr> s_hash = block_hash b, s_result = Some (resolved ev st b) \<rparr>) toSwap"
    by (simp add: resolved_def)
  have parts: "compressedParts slots = map (\<lambda>b. compressed (resolved ev st b)) toSwap"
    unfolding slots' by (rule compressedParts_resolved)
  have od: "\<And>m b. block_text m = block_text b \<Longrightarrow> block_tokens m = block_tokens b \<Longrightarrow>
      onDemandResult ev st m = onDemandResult ev st b"
    by (rule onDemandResult_cong) simp_all
  have A: "\<forall>h e. messageCache st3 h = Some e \<longrightarrow>
          ?cache h = Some e
          \<or> (\<exists>b \<in> set toSwap. ?cache (block_hash b) = None \<and> h = block_hash b
                \<and> e = onDemandResult ev st b)"
  proof (intro allI impI)
    fix h e assume "messageCache st3 h = Some e"
    with st3 have "messageCache (fst (foldl (storeResult ev) (st2, slots0) missed)) h = Some e"
      by simp
    from foldl_storeResult_cache [of "(st2, slots0)" st ev missed h e, OF _ _ this] st2
    consider "?cache h = Some e"
      | m where "m \<in> set missed" "h = block_hash m" "e = onDemandResult ev st m"
      by auto
    then show "?cache h = Some e
          \<or> (\<exists>b \<in> set toSwap. ?cache (block_hash b) = None \<and> h = block_hash b
                \<and> e = onDemandResult ev st b)"
    proof cases
      case 1
      then show ?thesis by simp
    next
      case 2
      from missedFrom_blocks [OF 2(1) [unfolded missed]]
      obtain b where "b \<in> set toSwap" "?cache (block_hash b) = None"
        "block_hash m = block_hash b" "block_text m = block_text b"
        "block_tokens m = block_tokens b"
        by blast
      with 2 od [of m b] show ?thesis by auto
    qed
  qed
  have B: "\<forall>b \<in> set toSwap. ?cache (block_hash b) = None \<longrightarrow>
          (\<exists>b' \<in> set toSwap. block_hash b' = block_hash b \<and> ?cache (block_hash b') = None
              \<and> messageCache st3 (block_hash b) = Some (onDemandResult ev st b'))"
  proof (intro ballI impI)
    fix b assume b: "b \<in> set toSwap" "?cache (block_hash b) = None"
    from missedFrom_complete [of b toSwap ?cache 0] b missed
    obtain m where m: "m \<in> set missed" "block_hash m = block_hash b" by auto
    from foldl_storeResult_stored [of "(st2, slots0)" st m missed ev] st2 m(1)
    obtain m' where m': "m' \<in> set missed" "block_hash m' = block_hash m"
      "messageCache (fst (foldl (storeResult ev) (st2, slots0) missed)) (block_hash m)
         = Some (onDemandResult ev st m')"
      by auto
    from missedFrom_blocks [OF m'(1) [unfolded missed]]
    obtain b' where b': "b' \<in> set toSwap" "?cache (block_hash b') = None"
      "block_hash m' = block_hash b'" "block_text m' = block_text b'"
      "block_tokens m' = block_tokens b'"
      by blast
    with m m' st3 od [of m' b']
    show "\<exists>b' \<in> set toSwap. block_hash b' = block_hash b \<and> ?cache (block_hash b') = None
              \<and> messageCache st3 (block_hash b) = Some (onDemandResult ev st b')"
      by (intro bexI [of _ b']) simp_all
  qed
  have C: "\<forall>h e. ?cache h = Some e \<longrightarrow> messageCache st3 h = Some e"
  proof (intro allI impI)
    fix h e assume he: "?cache h = Some e"
    have "\<forall>m \<in> set missed. block_hash m \<noteq> h"
      using missedFrom_blocks [of _ ?cache 0 toSwap] he unfolding missed by fastforce
    from foldl_storeResult_keeps [of "(st2, slots0)" h e missed ev, OF _ this] he st2(1) st3
    show "messageCache st3 h = Some e" by simp
  qed
  from assemble_spec [OF fin] parts
  have D: "fk' = fk" "tb = tokensBefore evt" "s = renderHistory pf (compactionHistory st')"
    "\<exists>kE. compactionHistory st' = drop kE (compactionHistory st3 @ [roundEntry ev st toSwap])"
    "messageCache st' = messageCache st3" "cacheFile st' = Some (messageCache st')"
    by (simp_all add: roundEntry_def)
  from D(4) have E: "\<exists>hist kE. compactionHistory st' = drop kE (hist @ [roundEntry ev st toSwap])"
    by blast
  from A B C D(1,2,3,5,6) E show ?thesis by simp
qed

subsection \<open>Facts about the swap plan and the first half of the handler\<close>

lemma planWalk_spec:
  "planWalk cache overflow bs i tot k = (tot', w) \<Longrightarrow>
   (if tot \<ge> overflow \<or> bs = [] then w = k \<and> tot' = tot
    else \<exists>j. 0 < j \<and> j \<le> length bs \<and> w = i + j
           \<and> tot' = tot + cumulativeSavings cache bs j
           \<and> (\<forall>j' < j. tot + cumulativeSavings cache bs j' < overflow)
           \<and> (j < length bs \<longrightarrow> tot' \<ge> overflow))"
proof (induction bs arbitrary: i tot k)
  case Nil
  then show ?case by simp
next
  case (Cons b bs)
  show ?case
  proof (cases "tot \<ge> overflow")
    case True
    with Cons.prems show ?thesis by simp
  next
    case False
    let ?t = "tot + savings cache b"
    from False Cons.prems have run: "planWalk cache overflow bs (i + 1) ?t (i + 1) = (tot', w)"
      by simp
    note IH = Cons.IH [OF run]
    have "\<exists>j. 0 < j \<and> j \<le> length (b # bs) \<and> w = i + j
           \<and> tot' = tot + cumulativeSavings cache (b # bs) j
           \<and> (\<forall>j' < j. tot + cumulativeSavings cache (b # bs) j' < overflow)
           \<and> (j < length (b # bs) \<longrightarrow> tot' \<ge> overflow)"
    proof (cases "?t \<ge> overflow \<or> bs = []")
      case True
      with IH have "w = i + 1" "tot' = ?t" by simp_all
      with True False show ?thesis
        by (intro exI [of _ 1]) (auto simp: cumulativeSavings_def)
    next
      case stop: False
      with IH obtain j where j: "0 < j" "j \<le> length bs" "w = (i + 1) + j"
        "tot' = ?t + cumulativeSavings cache bs j"
        "\<forall>j' < j. ?t + cumulativeSavings cache bs j' < overflow"
        "j < length bs \<longrightarrow> tot' \<ge> overflow"
        by auto
      have "\<forall>j' < Suc j. tot + cumulativeSavings cache (b # bs) j' < overflow"
      proof (intro allI impI)
        fix j' assume "j' < Suc j"
        show "tot + cumulativeSavings cache (b # bs) j' < overflow"
        proof (cases j')
          case 0
          with False show ?thesis by (simp add: cumulativeSavings_def)
        next
          case (Suc j'')
          with \<open>j' < Suc j\<close> j(5) have "?t + cumulativeSavings cache bs j'' < overflow" by simp
          with Suc show ?thesis by (simp add: cumulativeSavings_def)
        qed
      qed
      with j show ?thesis
        by (intro exI [of _ "Suc j"]) (auto simp: cumulativeSavings_def)
    qed
    with False show ?thesis by simp
  qed
qed

lemma planWalk_top:
  assumes "0 < overflow" "blocks \<noteq> []"
  shows "1 \<le> snd (planWalk cache overflow blocks 0 0 0)
    \<and> snd (planWalk cache overflow blocks 0 0 0) \<le> length blocks
    \<and> fst (planWalk cache overflow blocks 0 0 0)
        = cumulativeSavings cache blocks (snd (planWalk cache overflow blocks 0 0 0))
    \<and> (\<forall>j < snd (planWalk cache overflow blocks 0 0 0). cumulativeSavings cache blocks j < overflow)
    \<and> (snd (planWalk cache overflow blocks 0 0 0) < length blocks \<longrightarrow>
          overflow \<le> cumulativeSavings cache blocks (snd (planWalk cache overflow blocks 0 0 0)))"
proof -
  obtain tot' w where run: "planWalk cache overflow blocks 0 0 0 = (tot', w)"
    by (cases "planWalk cache overflow blocks 0 0 0")
  from planWalk_spec [OF run] assms run show ?thesis by auto
qed

lemma swapCount_less: "blocks \<noteq> [] \<Longrightarrow> swapCount cache overflow blocks < length blocks"
  by (auto simp: swapCount_def Let_def)

lemma swapCount_walk:
  assumes "0 < overflow" "blocks \<noteq> []"
  shows "swapCount cache overflow blocks
     = min (snd (planWalk cache overflow blocks 0 0 0)) (length blocks - 1)"
  using planWalk_top [OF assms, of cache] assms(2)
  by (auto simp: swapCount_def Let_def min_def)

lemma resolved_cong:
  "messageCache st' = messageCache st \<Longrightarrow> config st' = config st \<Longrightarrow> capable st' = capable st
   \<Longrightarrow> resolved ev st' b = resolved ev st b"
  using onDemandResult_cong [of st' st b b ev]
  by (simp add: resolved_def split: option.splits)

lemma roundEntry_cong:
  assumes "messageCache st' = messageCache st" "config st' = config st" "capable st' = capable st"
  shows "roundEntry ev st' bs = roundEntry ev st bs"
proof -
  have "(resolved ev st' :: eblock \<Rightarrow> cache_entry) = resolved ev st"
    by (rule ext) (rule resolved_cong [OF assms])
  then show ?thesis by (simp add: roundEntry_def)
qed

lemma handler_plan:
  assumes run: "handleBeforeCompact pf ev evt st = Some (Compaction s fk tb, st')"
  shows "\<exists>allBlocks.
      groupEntriesIntoBlocks pf (config st) (branchEntries evt) (startIdxOf (branchEntries evt))
        = Some allBlocks
      \<and> enabled (config st) \<and> capable st \<and> branchEntries evt \<noteq> []
      \<and> 0 < overflowOf (config st) evt
      \<and> 0 < swapCount (messageCache st) (overflowOf (config st) evt)
                (eligibleBlocks (config st) allBlocks)
      \<and> swapCount (messageCache st) (overflowOf (config st) evt)
            (eligibleBlocks (config st) allBlocks)
          < length (eligibleBlocks (config st) allBlocks)
      \<and> fk = firstEntryId (eligibleBlocks (config st) allBlocks
                ! swapCount (messageCache st) (overflowOf (config st) evt)
                    (eligibleBlocks (config st) allBlocks))
      \<and> fk \<noteq> []
      \<and> swapBlocks pf ev evt
           (take (swapCount (messageCache st) (overflowOf (config st) evt)
                    (eligibleBlocks (config st) allBlocks))
                 (eligibleBlocks (config st) allBlocks))
           fk ((trackSession (branchEntries evt) st)\<lparr> deferredCompactionMinBlocks := 0 \<rparr>)
          = Some (Compaction s fk tb, st')"
proof -
  let ?st1 = "trackSession (branchEntries evt) st"
  from run have en: "enabled (config st)" "branchEntries evt \<noteq> []" "capable st"
    by (auto simp: handleBeforeCompact_def split: if_splits)
  with run obtain allBlocks where
    grp: "groupEntriesIntoBlocks pf (config st) (branchEntries evt) (startIdxOf (branchEntries evt))
        = Some allBlocks"
    by (auto simp: handleBeforeCompact_def Let_def split: option.splits)
  let ?blocks = "eligibleBlocks (config st) allBlocks"
  let ?ov = "overflowOf (config st) evt"
  let ?k = "swapCount (messageCache st) ?ov ?blocks"
  let ?fk = "case drop ?k ?blocks of b # _ \<Rightarrow> firstEntryId b
             | [] \<Rightarrow> be_id (last (branchEntries evt))"
  from run en grp have ne: "?blocks \<noteq> []" and ov: "0 < ?ov" and k: "?k \<noteq> 0"
    and fkne: "?fk \<noteq> []"
    and sw: "swapBlocks pf ev evt (take ?k ?blocks) ?fk
          (?st1\<lparr> deferredCompactionMinBlocks := 0 \<rparr>) = Some (Compaction s fk tb, st')"
    by (auto simp: handleBeforeCompact_def Let_def eligibleBlocks_def overflowOf_def
        split: if_splits)
  from swapCount_less [OF ne] have lt: "?k < length ?blocks" .
  then have "drop ?k ?blocks = ?blocks ! ?k # drop (Suc ?k) ?blocks"
    by (simp add: Cons_nth_drop_Suc)
  then have fk': "?fk = firstEntryId (?blocks ! ?k)" by simp
  from swapBlocks_spec [OF sw] have "fk = ?fk" by simp
  with fk' fkne sw grp en ov k lt show ?thesis by auto
qed

subsection \<open>The concrete request, evaluated\<close>

lemma fourTurns_blocks:
  "groupEntriesIntoBlocks referencePlatform smallConfig fourTurns 0 =
     Some [turnBlock 0 ''e0'' ''0123456789012345'', turnBlock 1 ''e1'' ''hi'',
           turnBlock 2 ''e2'' ''abcdefghijklmnop'', turnBlock 3 ''e3'' ''ABCDEFGHIJKLMNOP'']"
  by (simp add: groupEntriesIntoBlocks_def fourTurns_def smallConfig_def DEFAULT_CONFIG_def
        maxTokensOf_def messagesText_def estimateTokens_def Let_def turnBlock_def)

lemma fourTurns_start: "startIdxOf fourTurns = 0"
  by (simp add: startIdxOf_def prevCompactionIndex_def fourTurns_def upt_rec [of 0] )

lemma fourTurns_session:
  "detectSessionId fourTurns = ''e0''" "prevCompactionIndex fourTurns = None"
  "fourTurns \<noteq> []"
  by (simp_all add: detectSessionId_def prevCompactionIndex_def fourTurns_def upt_rec [of 0])

lemma humanText_simps [simp]:
  "length (humanText s) = length s + 9"
  "(humanText s = humanText s') = (s = s')"
  "(humanText s @ ''.md'' = humanText s' @ ''.md'') = (s = s')"
  by (simp_all add: humanText_def)

lemma turnBlock_fields [simp]:
  "block_text (turnBlock i ident s) = humanText s"
  "block_hash (turnBlock i ident s) = humanText s"
  "block_tokens (turnBlock i ident s) = (length s + 12) div 4"
  "firstEntryId (turnBlock i ident s) = ident"
  "firstEntryIndex (turnBlock i ident s) = i"
  "entries (turnBlock i ident s) = [\<lparr> index = i, id_e = ident, message = userMsg s \<rparr>]"
  by (simp_all add: turnBlock_def messagesText_def referencePlatform_def estimateTokens_def
        humanText_def)

lemma smallState_fields [simp]:
  "config smallState = smallConfig" "capable smallState"
  "messageCache smallState = Map.empty" "deferredCompactionMinBlocks smallState = 0"
  "currentSessionId smallState = None" "historyFiles smallState = Map.empty"
  "compactionHistory smallState = []" "rawArchive smallState = Map.empty"
  by (simp_all add: smallState_def readyState_def capable_def)

lemma smallConfig_fields [simp]:
  "enabled smallConfig" "minTokensOf smallConfig = 6" "compressTrigger smallConfig = 100"
  "minCompressChars smallConfig = 20" "maxParallelCompressions smallConfig = 4"
  "evictTrigger smallConfig = 80000"
  by (simp_all add: smallConfig_def DEFAULT_CONFIG_def minTokensOf_def)

lemma smallPlan:
  "swapCount Map.empty 5
       [turnBlock 0 ''e0'' ''0123456789012345'', turnBlock 2 ''e2'' ''abcdefghijklmnop'',
        turnBlock 3 ''e3'' ''ABCDEFGHIJKLMNOP''] = 2"
  by (simp add: swapCount_def savings_def estimatedCompressed_def Let_def)

lemma failingEnv_fields [simp]:
  "aborted failingEnv n = False" "provider failingEnv t = Throws" "nowAppend failingEnv = 2000"
  by (simp_all add: failingEnv_def)

lemma smallFallback:
  "block_tokens m = estimateTokens (block_text m) \<Longrightarrow>
   onDemandResult failingEnv st m = rawEntry (block_text m)"
  by (simp add: onDemandResult_def compressSingleBlock_def rawEntry_def Let_def)

lemma smallSwap:
  "swapBlocks referencePlatform failingEnv smallEvent
       [turnBlock 0 ''e0'' ''0123456789012345'', turnBlock 2 ''e2'' ''abcdefghijklmnop'']
       ''e3'' ((trackSession fourTurns smallState)\<lparr> deferredCompactionMinBlocks := 0 \<rparr>)
     = Some (Compaction (renderHistory referencePlatform smallHistory) ''e3'' 105, smallResult)"
proof -
  let ?st1 = "smallState\<lparr> currentSessionId := Some ''e0'', compactionHistory := [],
                deferredCompactionMinBlocks := 0 \<rparr>"
  have st1: "(trackSession fourTurns smallState)\<lparr> deferredCompactionMinBlocks := 0 \<rparr> = ?st1"
    by (simp add: trackSession_def fourTurns_session Let_def)
  have pp: "preservePrevious failingEnv fourTurns ?st1 = ?st1"
    by (simp add: preservePrevious_def fourTurns_session)
  let ?st2 = "?st1\<lparr> rawArchive :=
       [humanText ''0123456789012345'' @ ''.md'' \<mapsto> humanText ''0123456789012345'',
        humanText ''abcdefghijklmnop'' @ ''.md'' \<mapsto> humanText ''abcdefghijklmnop''] \<rparr>"
  let ?m0 = "\<lparr> block_text = humanText ''0123456789012345'',
           block_hash = humanText ''0123456789012345'',
           block_tokens = estimateTokens (humanText ''0123456789012345''), slotIndex = 0 \<rparr>"
  let ?m2 = "\<lparr> block_text = humanText ''abcdefghijklmnop'',
           block_hash = humanText ''abcdefghijklmnop'',
           block_tokens = estimateTokens (humanText ''abcdefghijklmnop''), slotIndex = 1 \<rparr>"
  have look: "lookupSwapped
       [turnBlock 0 ''e0'' ''0123456789012345'', turnBlock 2 ''e2'' ''abcdefghijklmnop'']
       ?st1 [] []
     = (?st2,
        [\<lparr> s_hash = humanText ''0123456789012345'', s_result = None \<rparr>,
         \<lparr> s_hash = humanText ''abcdefghijklmnop'', s_result = None \<rparr>],
        [?m0, ?m2])"
    by (simp add: archiveRawBlock_def Let_def estimateTokens_def)
  let ?st3 = "?st2\<lparr> messageCache := smallCache \<rparr>"
  let ?slots = "[\<lparr> s_hash = humanText ''0123456789012345'',
            s_result = Some (rawEntry (humanText ''0123456789012345'')) \<rparr>,
          \<lparr> s_hash = humanText ''abcdefghijklmnop'',
            s_result = Some (rawEntry (humanText ''abcdefghijklmnop'')) \<rparr>]"
  have comp: "compressMissed failingEnv 4 [?m0, ?m2] 0 1
        (?st2,
         [\<lparr> s_hash = humanText ''0123456789012345'', s_result = None \<rparr>,
          \<lparr> s_hash = humanText ''abcdefghijklmnop'', s_result = None \<rparr>])
     = Some (Inr (?st3, ?slots, 2))"
    by (simp add: compressMissed.simps storeResult_def smallFallback Let_def smallCache_def)
  have fin: "assemble referencePlatform failingEnv smallEvent
       [turnBlock 0 ''e0'' ''0123456789012345'', turnBlock 2 ''e2'' ''abcdefghijklmnop'']
       ''e3'' ?st3 ?slots
     = (Compaction (renderHistory referencePlatform smallHistory) ''e3'' 105, smallResult)"
    by (simp add: assemble_def compressedParts_def rawEntry_def separator_def estimateTokens_def
        applyFifoEviction_def evictLoop.simps historyTotal_def baseOverhead_def
        overheadPerBlock_def saveCompactionHistory_def saveMessageCache_def
        smallResult_def smallHistory_def smallEvent_def Let_def)
  have mp: "maxParallelCompressions (config ?st2) = 4" by simp
  have be: "branchEntries smallEvent = fourTurns" by (simp add: smallEvent_def)
  show ?thesis
    unfolding st1
    by (simp only: swapBlocks_def Let_def be pp failingEnv_fields if_False look prod.case mp
        comp option.case sum.case fin)
qed

lemma smallRun:
  "handleBeforeCompact referencePlatform failingEnv smallEvent smallState
     = Some (Compaction (renderHistory referencePlatform smallHistory) ''e3'' 105, smallResult)"
  by (simp add: handleBeforeCompact_def fourTurns_start fourTurns_blocks
        smallEvent_def smallPlan fourTurns_session
        smallSwap [unfolded smallEvent_def])

subsection \<open>Further facts about blocks, the queue and the compressions\<close>

lemma covers_tokens:
  "covers pf bs es \<Longrightarrow> b \<in> set bs \<Longrightarrow>
     block_tokens b = estimateTokens (block_text b) \<and> block_hash b = hashText pf (block_text b)"
  by (induction rule: covers.induct) auto

lemma covers_entries:
  "covers pf bs es \<Longrightarrow> b \<in> set bs \<Longrightarrow>
     set (entries b) \<subseteq> set es \<and> firstEntryIndex b \<in> index ` set es"
proof (induction rule: covers.induct)
  case covers_nil
  then show ?case by simp
next
  case (covers_whole es bs rest)
  then show ?case by (cases es) auto
next
  case (covers_frags chunks e bs rest)
  then show ?case by auto
qed

lemma covers_order:
  "covers pf bs es \<Longrightarrow> sorted_wrt (<) (map index es) \<Longrightarrow> bs = A @ b # B \<Longrightarrow>
   kept \<in> set B \<Longrightarrow> firstEntryIndex b \<noteq> firstEntryIndex kept \<Longrightarrow> e \<in> set (entries b) \<Longrightarrow>
   index e < firstEntryIndex kept"
proof (induction arbitrary: A rule: covers.induct)
  case covers_nil
  then show ?case by simp
next
  case (covers_whole es1 bs rest)
  from covers_whole.prems(1) have sorted: "sorted_wrt (<) (map index rest)"
    and lt: "\<forall>x \<in> set es1. \<forall>y \<in> set rest. index x < index y"
    by (auto simp: sorted_wrt_append)
  show ?case
  proof (cases A)
    case Nil
    with covers_whole.prems(2) have b: "b = finalizeEntryBlock pf es1" and B: "B = bs" by simp_all
    from covers_entries [OF covers_whole.hyps(2)] covers_whole.prems(3) B
    have "firstEntryIndex kept \<in> index ` set rest" by blast
    with lt covers_whole.prems(5) b show ?thesis by auto
  next
    case (Cons a A')
    with covers_whole.prems(2) have "bs = A' @ b # B" by simp
    from covers_whole.IH [OF sorted this covers_whole.prems(3-5)] show ?thesis .
  qed
next
  case (covers_frags chunks e0 bs rest)
  from covers_frags.prems(1) have sorted: "sorted_wrt (<) (map index rest)"
    and lt: "\<forall>y \<in> set rest. index e0 < index y"
    by auto
  from covers_frags.prems(2)
  consider (inRest) us where "A = map (chunkEntryBlock pf e0) chunks @ us" "us @ b # B = bs"
    | (inFrags) us where "A @ us = map (chunkEntryBlock pf e0) chunks" "b # B = us @ bs"
    by (auto simp: append_eq_append_conv2)
  then show ?case
  proof cases
    case inRest
    from covers_frags.IH [OF sorted inRest(2) [symmetric] covers_frags.prems(3-5)]
    show ?thesis .
  next
    case inFrags
    show ?thesis
    proof (cases us)
      case Nil
      with inFrags(2) have "bs = [] @ b # B" by simp
      from covers_frags.IH [OF sorted this covers_frags.prems(3-5)] show ?thesis .
    next
      case (Cons u us')
      with inFrags have b: "b = u" and B: "B = us' @ bs" by simp_all
      from inFrags(1) Cons
      have "set (A @ u # us') = set (map (chunkEntryBlock pf e0) chunks)" by simp
      then have u: "u \<in> set (map (chunkEntryBlock pf e0) chunks)"
        and us': "set us' \<subseteq> set (map (chunkEntryBlock pf e0) chunks)"
        by auto
      from b u have eb: "entries b = [e0]" "firstEntryIndex b = index e0" by auto
      from B covers_frags.prems(3) consider "kept \<in> set us'" | "kept \<in> set bs" by auto
      then show ?thesis
      proof cases
        case 1
        with us' have "firstEntryIndex kept = index e0" by auto
        with eb covers_frags.prems(4) show ?thesis by simp
      next
        case 2
        from covers_entries [OF covers_frags.hyps(3) 2]
        have "firstEntryIndex kept \<in> index ` set rest" by blast
        with lt eb covers_frags.prems(5) show ?thesis by auto
      qed
    qed
  qed
qed

lemma take_filter_butlast:
  "k < length (filter P xs) \<Longrightarrow> take k (filter P xs) = take k (filter P (butlast xs))"
proof (cases "xs = []")
  case True
  then show ?thesis by simp
next
  case False
  assume k: "k < length (filter P xs)"
  from False have "xs = butlast xs @ [last xs]" by simp
  then have "filter P xs = filter P (butlast xs) @ filter P [last xs]"
    by (metis filter_append)
  with k show ?thesis by (auto split: if_splits)
qed

lemma swapCount_one:
  "length blocks = 1 \<Longrightarrow> swapCount cache overflow blocks = 0"
  by (auto simp: swapCount_def Let_def)

lemma onDemandResult_props:
  "tokensCompressed (onDemandResult ev st b) \<le> tokensRaw (onDemandResult ev st b)
   \<and> (length (block_text b) < minCompressChars (config st)
        \<or> (\<forall>c. provider ev (block_text b) = Reply c \<longrightarrow>
              19 * estimateTokens (block_text b) \<le> 20 * estimateTokens c)
      \<longrightarrow> compressed (onDemandResult ev st b) = block_text b)"
  by (cases "provider ev (block_text b)")
     (auto simp: onDemandResult_def compressSingleBlock_def Let_def)

lemma onDemandResult_failure:
  "provider ev (block_text b) = Throws \<or> provider ev (block_text b) = ErrorStop \<Longrightarrow>
   block_tokens b = estimateTokens (block_text b) \<Longrightarrow>
   onDemandResult ev st b = \<lparr> compressed = block_text b, tokensRaw = block_tokens b,
                               tokensCompressed = block_tokens b \<rparr>"
  by (auto simp: onDemandResult_def compressSingleBlock_def Let_def)

lemma compressMissed_state:
  assumes "compressMissed ev maxParallel missed i n acc = Some y"
  shows "\<exists>ms. set ms \<subseteq> set missed
     \<and> (case y of Inl s \<Rightarrow> s | Inr r \<Rightarrow> fst r) = fst (foldl (storeResult ev) acc ms)"
proof (rule compressMissed.raw_induct
    [where P = "\<lambda>ev maxParallel missed i n acc y.
       \<exists>ms. set ms \<subseteq> set missed
         \<and> (case y of Inl s \<Rightarrow> s | Inr r \<Rightarrow> fst r) = fst (foldl (storeResult ev) acc ms)",
     OF _ assms])
  fix cm ev maxParallel missedBlocks i n acc y
  assume IH: "\<And>ev maxParallel missedBlocks i n acc y.
      cm ev maxParallel missedBlocks i n acc = Some y \<Longrightarrow>
      \<exists>ms. set ms \<subseteq> set missedBlocks
        \<and> (case y of Inl s \<Rightarrow> s | Inr r \<Rightarrow> fst r) = fst (foldl (storeResult ev) acc ms)"
    and eq: "(if i < length missedBlocks then
        (if aborted ev n then Some (Inl (fst acc))
         else cm ev maxParallel missedBlocks (i + maxParallel) (Suc n)
                (foldl (storeResult ev) acc (take maxParallel (drop i missedBlocks))))
      else Some (Inr (fst acc, snd acc, n))) = Some y"
  show "\<exists>ms. set ms \<subseteq> set missedBlocks
        \<and> (case y of Inl s \<Rightarrow> s | Inr r \<Rightarrow> fst r) = fst (foldl (storeResult ev) acc ms)"
  proof (cases "i < length missedBlocks \<and> \<not> aborted ev n")
    case False
    with eq have "(case y of Inl s \<Rightarrow> s | Inr r \<Rightarrow> fst r) = fst (foldl (storeResult ev) acc [])"
      by (auto split: if_splits)
    then show ?thesis by (intro exI [of _ "[]"]) simp
  next
    case True
    let ?batch = "take maxParallel (drop i missedBlocks)"
    from True eq
    have "cm ev maxParallel missedBlocks (i + maxParallel) (Suc n)
            (foldl (storeResult ev) acc ?batch) = Some y"
      by simp
    from IH [OF this] obtain ms where ms: "set ms \<subseteq> set missedBlocks"
      "(case y of Inl s \<Rightarrow> s | Inr r \<Rightarrow> fst r)
         = fst (foldl (storeResult ev) (foldl (storeResult ev) acc ?batch) ms)"
      by blast
    have "set ?batch \<subseteq> set missedBlocks"
      by (meson set_take_subset set_drop_subset subset_trans)
    with ms show ?thesis by (intro exI [of _ "?batch @ ms"]) simp
  qed
qed

lemma processQueue_spec:
  "compressionQueue (processQueue st) = [] \<and> messageCache (processQueue st) = messageCache st
   \<and> config (processQueue st) = config st
   \<and> deferredCompactionMinBlocks (processQueue st) = deferredCompactionMinBlocks st
   \<and> (\<forall>f c. rawArchive st f = Some c \<longrightarrow> rawArchive (processQueue st) f = Some c)"
proof (induction st rule: processQueue.induct)
  case (1 st)
  show ?case
  proof (cases "compressionQueue st")
    case Nil
    then show ?thesis by (simp add: processQueue.simps [of st])
  next
    case (Cons item rest)
    let ?st1 = "archiveRawBlock (q_hash item) (q_text item) (st\<lparr> compressionQueue := rest \<rparr>)"
    have "\<forall>f c. rawArchive st f = Some c \<longrightarrow> rawArchive ?st1 f = Some c"
      by (auto simp: archiveRawBlock_def Let_def)
    with "1.IH" [OF Cons] Cons show ?thesis
      by (simp add: processQueue.simps [of st])
  qed
qed

lemma processQueue_single:
  "compressionQueue st = [item] \<Longrightarrow>
   rawArchive (processQueue st) =
     (if rawArchive st (q_hash item @ ''.md'') = None
      then (rawArchive st)(q_hash item @ ''.md'' \<mapsto> q_text item)
      else rawArchive st)"
  by (simp add: processQueue.simps [of st] archiveRawBlock_def Let_def
        processQueue.simps [of "st\<lparr>compressionQueue := [], rawArchive := X\<rparr>" for X]
        processQueue.simps [of "st\<lparr>compressionQueue := []\<rparr>"])

subsection \<open>Facts about the whole handler\<close>

lemma swapBlocks_cache:
  assumes run: "swapBlocks pf ev evt toSwap fk st = Some (r, st')"
    and e: "messageCache st' h = Some e"
  shows "messageCache st h = Some e
     \<or> (\<exists>b \<in> set toSwap. h = block_hash b \<and> e = onDemandResult ev st b)"
proof (cases "aborted ev 0")
  case True
  with run have "st' = preservePrevious ev (branchEntries evt) st"
    by (simp add: swapBlocks_def Let_def)
  with e show ?thesis by simp
next
  case nab: False
  let ?st1 = "preservePrevious ev (branchEntries evt) st"
  let ?cache = "messageCache st"
  obtain st2 slots0 missed where look: "lookupSwapped toSwap ?st1 [] [] = (st2, slots0, missed)"
    by (cases "lookupSwapped toSwap ?st1 [] []") auto
  from lookupSwapped_spec [OF look]
  have missed: "missed = missedFrom ?cache 0 toSwap"
    and st2: "messageCache st2 = ?cache" "config st2 = config st" "capable st2 = capable st"
    by simp_all
  from run look nab obtain y where
    cm: "compressMissed ev (maxParallelCompressions (config st2)) missed 0 1 (st2, slots0) = Some y"
    by (auto simp: swapBlocks_def Let_def split: option.splits)
  from compressMissed_state [OF cm] obtain ms where ms: "set ms \<subseteq> set missed"
    and y: "(case y of Inl s \<Rightarrow> s | Inr r \<Rightarrow> fst r) = fst (foldl (storeResult ev) (st2, slots0) ms)"
    by blast
  have "messageCache st' = messageCache (case y of Inl s \<Rightarrow> s | Inr r \<Rightarrow> fst r)"
  proof (cases y)
    case (Inl s)
    with run look nab cm show ?thesis by (simp add: swapBlocks_def Let_def)
  next
    case (Inr t)
    obtain st3 slots n where t: "t = (st3, slots, n)" by (cases t) auto
    show ?thesis
    proof (cases "aborted ev n")
      case True
      with run look nab cm Inr t show ?thesis by (simp add: swapBlocks_def Let_def)
    next
      case False
      with run look nab cm Inr t
      have "assemble pf ev evt toSwap fk st3 slots = (r, st')"
        by (simp add: swapBlocks_def Let_def)
      from assemble_spec [OF this] Inr t show ?thesis by simp
    qed
  qed
  with e y have "messageCache (fst (foldl (storeResult ev) (st2, slots0) ms)) h = Some e"
    by simp
  from foldl_storeResult_cache [of "(st2, slots0)" st ev ms h e, OF _ _ this] st2
  consider "?cache h = Some e"
    | m where "m \<in> set ms" "h = block_hash m" "e = onDemandResult ev st m"
    by auto
  then show ?thesis
  proof cases
    case 1
    then show ?thesis by simp
  next
    case 2
    with ms have "m \<in> set (missedFrom ?cache 0 toSwap)" unfolding missed by auto
    from missedFrom_blocks [OF this]
    obtain b where b: "b \<in> set toSwap" "block_hash m = block_hash b"
      "block_text m = block_text b" "block_tokens m = block_tokens b"
      by blast
    have "onDemandResult ev st m = onDemandResult ev st b"
      by (rule onDemandResult_cong) (simp_all add: b)
    with 2 b show ?thesis by auto
  qed
qed

lemma swapBlocks_total:
  assumes "0 < maxParallelCompressions (config st)"
  shows "\<exists>r. swapBlocks pf ev evt toSwap fk st = Some r"
proof -
  let ?st1 = "preservePrevious ev (branchEntries evt) st"
  obtain st2 slots0 missed where look: "lookupSwapped toSwap ?st1 [] [] = (st2, slots0, missed)"
    by (cases "lookupSwapped toSwap ?st1 [] []") auto
  from lookupSwapped_spec [OF look] have "config st2 = config st" by simp
  with assms have "0 < maxParallelCompressions (config st2)" by simp
  from compressMissed_total [OF this, of ev missed 0 1 "(st2, slots0)"]
  obtain y where
    "compressMissed ev (maxParallelCompressions (config st2)) missed 0 1 (st2, slots0) = Some y"
    by blast
  with look show ?thesis
    by (cases "assemble pf ev evt toSwap fk (fst (projr y)) (fst (snd (projr y)))")
       (auto simp: swapBlocks_def Let_def split: sum.splits)
qed

lemma capable_update [simp]:
  "capable (st\<lparr> deferredCompactionMinBlocks := d \<rparr>) = capable st"
  by (simp add: capable_def)

lemma handler_cache:
  assumes run: "handleBeforeCompact pf ev evt st = Some (r, st')"
    and e: "messageCache st' h = Some e" and new: "messageCache st h \<noteq> Some e"
  shows "\<exists>allBlocks.
      groupEntriesIntoBlocks pf (config st) (branchEntries evt) (startIdxOf (branchEntries evt))
        = Some allBlocks
      \<and> (\<exists>b \<in> set (eligibleBlocks (config st) allBlocks).
            h = block_hash b \<and> e = onDemandResult ev st b)"
proof -
  let ?st1 = "trackSession (branchEntries evt) st"
  from run e new have en: "enabled (config st)" "branchEntries evt \<noteq> []" "capable st"
    by (auto simp: handleBeforeCompact_def split: if_splits)
  with run obtain allBlocks where
    grp: "groupEntriesIntoBlocks pf (config st) (branchEntries evt) (startIdxOf (branchEntries evt))
        = Some allBlocks"
    by (auto simp: handleBeforeCompact_def Let_def split: option.splits)
  let ?blocks = "eligibleBlocks (config st) allBlocks"
  let ?ov = "overflowOf (config st) evt"
  let ?k = "swapCount (messageCache st) ?ov ?blocks"
  let ?st2 = "?st1\<lparr> deferredCompactionMinBlocks := 0 \<rparr>"
  from run en grp e new obtain fk where
    sw: "swapBlocks pf ev evt (take ?k ?blocks) fk ?st2 = Some (r, st')"
    by (auto simp: handleBeforeCompact_def Let_def eligibleBlocks_def overflowOf_def
        split: if_splits)
  from swapBlocks_cache [OF sw e] new
  obtain b where b: "b \<in> set (take ?k ?blocks)" "h = block_hash b"
    "e = onDemandResult ev ?st2 b"
    by auto
  have "onDemandResult ev ?st2 b = onDemandResult ev st b"
    by (rule onDemandResult_cong) simp_all
  with b grp show ?thesis by (auto dest: in_set_takeD)
qed

lemma handler_total:
  assumes "0 < maxParallelCompressions (config st)"
  shows "\<exists>r. handleBeforeCompact pf ev evt st = Some r"
proof -
  from groupEntriesIntoBlocks_covers
  obtain allBlocks where
    grp: "groupEntriesIntoBlocks pf (config st) (branchEntries evt) (startIdxOf (branchEntries evt))
        = Some allBlocks"
    by blast
  have "\<And>toSwap fk. \<exists>r. swapBlocks pf ev evt toSwap fk
      ((trackSession (branchEntries evt) st)\<lparr> deferredCompactionMinBlocks := 0 \<rparr>) = Some r"
    by (rule swapBlocks_total) (simp add: assms)
  with grp show ?thesis
    by (simp add: handleBeforeCompact_def Let_def)
qed

lemma handler_defers:
  assumes "enabled (config st)" "capable st" "branchEntries evt \<noteq> []"
    and grp: "groupEntriesIntoBlocks pf (config st) (branchEntries evt)
        (startIdxOf (branchEntries evt)) = Some allBlocks"
    and one: "length (eligibleBlocks (config st) allBlocks) = 1"
    and "0 < overflowOf (config st) evt"
  shows "handleBeforeCompact pf ev evt st
     = Some (Cancel,
         if 1 < deferredCompactionMinBlocks st then trackSession (branchEntries evt) st
         else (trackSession (branchEntries evt) st)\<lparr> deferredCompactionMinBlocks := 2 \<rparr>)"
proof -
  from one have ne: "eligibleBlocks (config st) allBlocks \<noteq> []" by auto
  from swapCount_one [OF one]
  have "swapCount (messageCache st) (overflowOf (config st) evt)
          (eligibleBlocks (config st) allBlocks) = 0" .
  with assms ne show ?thesis
    by (auto simp: handleBeforeCompact_def Let_def eligibleBlocks_def overflowOf_def)
qed

subsection \<open>Facts about the concrete states and the queue\<close>

lemma sized_fields [simp]:
  "block_hash (sizedBlock h n) = h" "block_tokens (sizedBlock h n) = n"
  "tokensCompressed (sizedEntry r c) = c" "tokensRaw (sizedEntry r c) = r"
  by (simp_all add: sizedBlock_def sizedEntry_def)

lemma scenario_savings:
  "savings scenarioCache (sizedBlock ''b1'' 5000) = 3000"
  "savings scenarioCache (sizedBlock ''b2'' 4000) = 2200"
  "savings scenarioCache (sizedBlock ''b3'' 4000) = 1600"
  "savings scenarioCache (sizedBlock ''b4'' 3000) = 1200"
  by (simp_all add: savings_def estimatedCompressed_def scenarioCache_def)

lemma keylessState_fields [simp]:
  "enabled (config keylessState)" "\<not> capable keylessState"
  "\<not> enabled (config disabledState)" "\<not> capable disabledState"
  by (simp_all add: keylessState_def disabledState_def smallState_def readyState_def
        smallConfig_def DEFAULT_CONFIG_def capable_def)

lemma smallState_queue [simp]: "compressionQueue smallState = []"
  by (simp add: smallState_def readyState_def)

lemma queueBlock_cache:
  "messageCache (queueBlock blk st) h = Some e \<Longrightarrow> messageCache st h \<noteq> Some e \<Longrightarrow>
   h = block_hash blk \<and> length (block_text blk) < minCompressChars (config st)
   \<and> e = \<lparr> compressed = block_text blk, tokensRaw = block_tokens blk,
            tokensCompressed = block_tokens blk \<rparr>"
proof -
  assume a: "messageCache (queueBlock blk st) h = Some e" "messageCache st h \<noteq> Some e"
  have pq: "messageCache (processQueue s) = messageCache s" for s
    using processQueue_spec [of s] by simp
  show ?thesis
  proof (cases "\<not> enabled (config st) \<or> \<not> capable st \<or> messageCache st (block_hash blk) \<noteq> None")
    case True
    then have "queueBlock blk st = st" by (auto simp: queueBlock_def)
    with a show ?thesis by simp
  next
    case False
    show ?thesis
    proof (cases "length (block_text blk) < minCompressChars (config st)")
      case True
      with False a show ?thesis
        by (auto simp: queueBlock_def split: if_splits)
    next
      case long: False
      with False have "messageCache (queueBlock blk st) = messageCache st"
        by (simp add: queueBlock_def pq del: processQueue.simps)
      with a show ?thesis by simp
    qed
  qed
qed

lemma queueBlock_long:
  assumes "enabled (config st)" "capable st" "messageCache st (block_hash blk) = None"
    "\<not> length (block_text blk) < minCompressChars (config st)" "compressionQueue st = []"
  shows "messageCache (queueBlock blk st) = messageCache st
    \<and> compressionQueue (queueBlock blk st) = []
    \<and> rawArchive (queueBlock blk st) =
        (if rawArchive st (block_hash blk @ ''.md'') = None
         then (rawArchive st)(block_hash blk @ ''.md'' \<mapsto> block_text blk)
         else rawArchive st)"
proof -
  let ?st1 = "st\<lparr> compressionQueue :=
                 compressionQueue st @ [\<lparr> q_text = block_text blk, q_hash = block_hash blk \<rparr>],
               deferredCompactionMinBlocks :=
                 (if deferredCompactionMinBlocks st > 0 then 0
                  else deferredCompactionMinBlocks st) \<rparr>"
  from assms have q: "queueBlock blk st = processQueue ?st1"
    by (simp add: queueBlock_def)
  from assms(5) have single: "compressionQueue ?st1
      = [\<lparr> q_text = block_text blk, q_hash = block_hash blk \<rparr>]"
    by simp
  from processQueue_spec [of ?st1] processQueue_single [OF single] q
  show ?thesis by simp
qed

subsection \<open>Further facts about the concrete request and the handler\<close>

lemma rawEntry_fields [simp]:
  "compressed (rawEntry t) = t" "tokensRaw (rawEntry t) = estimateTokens t"
  "tokensCompressed (rawEntry t) = estimateTokens t"
  by (simp_all add: rawEntry_def)

lemma smallResult_cache:
  "messageCache smallResult (humanText ''0123456789012345'')
     = Some (rawEntry (humanText ''0123456789012345''))"
  by (simp add: smallResult_def smallCache_def)

lemma singleTurn_blocks:
  "groupEntriesIntoBlocks referencePlatform smallConfig (branchEntries singleEvent)
      (startIdxOf (branchEntries singleEvent))
     = Some [turnBlock 0 ''e0'' ''0123456789012345'']"
  "branchEntries singleEvent \<noteq> []" "overflowOf smallConfig singleEvent = 5"
  by (simp_all add: groupEntriesIntoBlocks_def singleEvent_def smallConfig_def
        DEFAULT_CONFIG_def maxTokensOf_def messagesText_def estimateTokens_def Let_def
        turnBlock_def startIdxOf_def prevCompactionIndex_def upt_rec [of 0] overflowOf_def)

lemma fourTurns_span:
  "spanEntries fourTurns 0 =
     [\<lparr> index = 0, id_e = ''e0'', message = userMsg ''0123456789012345'' \<rparr>,
      \<lparr> index = 1, id_e = ''e1'', message = userMsg ''hi'' \<rparr>,
      \<lparr> index = 2, id_e = ''e2'', message = userMsg ''abcdefghijklmnop'' \<rparr>,
      \<lparr> index = 3, id_e = ''e3'', message = userMsg ''ABCDEFGHIJKLMNOP'' \<rparr>]"
  by (simp add: spanEntries_def fourTurns_def)

lemma fourTurns_eligible:
  "eligibleBlocks smallConfig
     [turnBlock 0 ''e0'' ''0123456789012345'', turnBlock 1 ''e1'' ''hi'',
      turnBlock 2 ''e2'' ''abcdefghijklmnop'', turnBlock 3 ''e3'' ''ABCDEFGHIJKLMNOP'']
   = [turnBlock 0 ''e0'' ''0123456789012345'', turnBlock 2 ''e2'' ''abcdefghijklmnop'',
      turnBlock 3 ''e3'' ''ABCDEFGHIJKLMNOP'']"
  "eligibleBlocks smallConfig [turnBlock 0 ''e0'' ''0123456789012345'']
   = [turnBlock 0 ''e0'' ''0123456789012345'']"
  by (simp_all add: eligibleBlocks_def)

lemma smallEvent_fields [simp]:
  "branchEntries smallEvent = fourTurns" "tokensBefore smallEvent = 105"
  "overflowOf smallConfig smallEvent = 5"
  by (simp_all add: smallEvent_def overflowOf_def)

lemma sorted_last_index:
  "sorted_wrt (<) (map index es) \<Longrightarrow> e \<in> set es \<Longrightarrow> index e \<le> index (last es)"
proof (induction es)
  case Nil
  then show ?case by simp
next
  case (Cons a es)
  then show ?case by (cases "es = []") (auto simp: less_imp_le)
qed

lemma handler_span:
  assumes run: "handleBeforeCompact pf ev evt st = Some (Compaction s fk tb, st')"
  shows "\<exists>allBlocks.
      groupEntriesIntoBlocks pf (config st) (branchEntries evt) (startIdxOf (branchEntries evt))
        = Some allBlocks
      \<and> covers pf allBlocks (spanEntries (branchEntries evt) (startIdxOf (branchEntries evt)))
      \<and> allBlocks \<noteq> []
      \<and> spanEntries (branchEntries evt) (startIdxOf (branchEntries evt)) \<noteq> []
      \<and> (\<exists>hist kE. compactionHistory st' = drop kE (hist @
            [roundEntry ev st
               (take (swapCount (messageCache st) (overflowOf (config st) evt)
                        (eligibleBlocks (config st) allBlocks))
                     (eligibleBlocks (config st) allBlocks))]))
      \<and> s = renderHistory pf (compactionHistory st')"
proof -
  from handler_plan [OF run] obtain allBlocks where
    grp: "groupEntriesIntoBlocks pf (config st) (branchEntries evt)
            (startIdxOf (branchEntries evt)) = Some allBlocks"
    and lt: "swapCount (messageCache st) (overflowOf (config st) evt)
            (eligibleBlocks (config st) allBlocks)
          < length (eligibleBlocks (config st) allBlocks)"
    and sw: "swapBlocks pf ev evt
           (take (swapCount (messageCache st) (overflowOf (config st) evt)
                    (eligibleBlocks (config st) allBlocks))
                 (eligibleBlocks (config st) allBlocks))
           fk ((trackSession (branchEntries evt) st)\<lparr> deferredCompactionMinBlocks := 0 \<rparr>)
          = Some (Compaction s fk tb, st')"
    by blast
  let ?st2 = "(trackSession (branchEntries evt) st)\<lparr> deferredCompactionMinBlocks := 0 \<rparr>"
  let ?span = "spanEntries (branchEntries evt) (startIdxOf (branchEntries evt))"
  from groupEntriesIntoBlocks_covers [of pf "config st" "branchEntries evt"
      "startIdxOf (branchEntries evt)"] grp
  have cov: "covers pf allBlocks ?span" by simp
  from lt have "eligibleBlocks (config st) allBlocks \<noteq> []" by auto
  then have ne: "allBlocks \<noteq> []" by (auto simp: eligibleBlocks_def)
  with covers_empty_iff [OF cov] have sne: "?span \<noteq> []" by simp
  have re: "roundEntry ev ?st2 bs = roundEntry ev st bs" for bs
    by (rule roundEntry_cong) simp_all
  from swapBlocks_spec [OF sw] re
  have "\<exists>hist kE. compactionHistory st' = drop kE (hist @
            [roundEntry ev st
               (take (swapCount (messageCache st) (overflowOf (config st) evt)
                        (eligibleBlocks (config st) allBlocks))
                     (eligibleBlocks (config st) allBlocks))])"
    and "s = renderHistory pf (compactionHistory st')"
    by simp_all
  with grp cov ne sne show ?thesis by blast
qed

subsection \<open>Further facts about the stored results\<close>

lemma handler_stored:
  assumes run: "handleBeforeCompact pf ev evt st = Some (Compaction s fk tb, st')"
    and grp: "groupEntriesIntoBlocks pf (config st) (branchEntries evt)
        (startIdxOf (branchEntries evt)) = Some allBlocks"
    and b: "b \<in> set (take (swapCount (messageCache st) (overflowOf (config st) evt)
                          (eligibleBlocks (config st) allBlocks))
                       (eligibleBlocks (config st) allBlocks))"
      "messageCache st (block_hash b) = None"
  shows "\<exists>b' \<in> set (take (swapCount (messageCache st) (overflowOf (config st) evt)
                          (eligibleBlocks (config st) allBlocks))
                       (eligibleBlocks (config st) allBlocks)).
           block_hash b' = block_hash b
           \<and> messageCache st' (block_hash b) = Some (onDemandResult ev st b')"
proof -
  let ?st2 = "(trackSession (branchEntries evt) st)\<lparr> deferredCompactionMinBlocks := 0 \<rparr>"
  let ?toSwap = "take (swapCount (messageCache st) (overflowOf (config st) evt)
                          (eligibleBlocks (config st) allBlocks))
                       (eligibleBlocks (config st) allBlocks)"
  from handler_plan [OF run] grp
  have sw: "swapBlocks pf ev evt ?toSwap fk ?st2 = Some (Compaction s fk tb, st')"
    by auto
  from swapBlocks_spec [OF sw] b
  obtain b' where b': "b' \<in> set ?toSwap" "block_hash b' = block_hash b"
    "messageCache st' (block_hash b) = Some (onDemandResult ev ?st2 b')"
    by auto
  have "onDemandResult ev ?st2 b' = onDemandResult ev st b'"
    by (rule onDemandResult_cong) simp_all
  with b' show ?thesis by auto
qed

lemma smallResult_history [simp]: "compactionHistory smallResult = smallHistory"
  by (simp add: smallResult_def)

lemma failing_resolved:
  "messageCache st (humanText t) = None \<Longrightarrow>
   resolved failingEnv st (turnBlock i ident t) = rawEntry (humanText t)"
  by (simp add: resolved_def smallFallback estimateTokens_def)

section \<open>The claims\<close>

subsection \<open>C5: the blocks of a span and its content\<close>




subsection \<open>C1: tool invocations and their results\<close>




subsection \<open>C7: FIFO eviction\<close>



subsection \<open>C9: the compression capability is unavailable\<close>

text \<open>
  C9, as the code has it. The handler tests \<open>config.enabled\<close> before anything else.
  When the engine is enabled and the compression capability is unavailable (no provider
  client or no resolved key), the handler returns a cancellation and leaves the whole
  state, with the compaction history and the cache, as it was: no block is selected or
  swapped.
\<close>

theorem C9_unavailable_cancels:
  "enabled (config st) \<Longrightarrow> \<not> capable st \<Longrightarrow>
   handleBeforeCompact pf ev evt st = Some (Cancel, st)"
  by (simp add: handleBeforeCompact_def)

theorem C9_witness:
  "enabled (config keylessState) \<and> \<not> capable keylessState
   \<and> handleBeforeCompact referencePlatform failingEnv smallEvent keylessState
       = Some (Cancel, keylessState)"
  using C9_unavailable_cancels [of keylessState referencePlatform failingEnv smallEvent]
  by simp

text \<open>
  With the engine switched off and no key the handler returns \<open>undefined\<close>, not a
  cancellation.
\<close>

theorem C9_counterexample:
  "\<not> capable disabledState
   \<and> handleBeforeCompact referencePlatform failingEnv smallEvent disabledState
       = Some (Undefined, disabledState)"
  by (simp add: handleBeforeCompact_def)

subsection \<open>C2: the swap plan\<close>

text \<open>
  C2, as the code has it. With a positive overflow and at least one eligible block,
  the planner walks the blocks oldest first and adds up the savings of each block: its
  raw tokens minus the compressed tokens of its cache entry, or minus \<open>ceil (0.6 * raw)\<close>
  when it has none. The walk stops after \<open>w\<close> blocks, the first count at which the
  sum reaches the overflow, or after all blocks when it never does. The swap count is
  \<open>w\<close> capped at the number of blocks minus one.
\<close>

theorem C2_swap_count:
  assumes "0 < overflow" "blocks \<noteq> []"
  shows "\<exists>w. w = snd (planWalk cache overflow blocks 0 0 0)
      \<and> 1 \<le> w \<and> w \<le> length blocks
      \<and> (\<forall>j < w. cumulativeSavings cache blocks j < overflow)
      \<and> (w < length blocks \<longrightarrow> overflow \<le> cumulativeSavings cache blocks w)
      \<and> swapCount cache overflow blocks = min w (length blocks - 1)
      \<and> (\<forall>b \<in> set blocks. savings cache b =
            (case cache (block_hash b) of
               Some cached \<Rightarrow> int (block_tokens b) - int (tokensCompressed cached)
             | None \<Rightarrow> int (block_tokens b) - int ((3 * block_tokens b + 4) div 5)))"
proof -
  have "\<forall>b \<in> set blocks. savings cache b =
            (case cache (block_hash b) of
               Some cached \<Rightarrow> int (block_tokens b) - int (tokensCompressed cached)
             | None \<Rightarrow> int (block_tokens b) - int ((3 * block_tokens b + 4) div 5))"
    by (simp add: savings_def estimatedCompressed_def split: option.splits)
  with planWalk_top [OF assms, of cache] swapCount_walk [OF assms, of cache]
  show ?thesis by simp
qed

text \<open>
  The scenario of the specification: a trigger of 36000 and 40000 tokens before, blocks
  of 5000, 4000, 4000 and 3000 tokens, the first two cached with 2000 and 1800. The
  first block saves 3000, the first two 5200: the swap count is 2 and the last two
  blocks stay raw.
\<close>

theorem C2_witness:
  "overflowOf DEFAULT_CONFIG scenarioEvent = 4000
   \<and> cumulativeSavings scenarioCache scenarioBlocks 1 = 3000
   \<and> cumulativeSavings scenarioCache scenarioBlocks 2 = 5200
   \<and> snd (planWalk scenarioCache 4000 scenarioBlocks 0 0 0) = 2
   \<and> swapCount scenarioCache 4000 scenarioBlocks = 2
   \<and> drop 2 scenarioBlocks = [sizedBlock ''b3'' 4000, sizedBlock ''b4'' 3000]"
proof -
  have w: "snd (planWalk scenarioCache 4000 scenarioBlocks 0 0 0) = 2"
    by (simp add: scenarioBlocks_def scenario_savings)
  have "scenarioBlocks \<noteq> []" "length scenarioBlocks = 4"
    by (simp_all add: scenarioBlocks_def)
  with C2_swap_count [of 4000 scenarioBlocks scenarioCache] w
  have "swapCount scenarioCache 4000 scenarioBlocks = 2" by simp
  with w show ?thesis
    by (simp add: overflowOf_def DEFAULT_CONFIG_def scenarioEvent_def cumulativeSavings_def
          scenarioBlocks_def scenario_savings)
qed

text \<open>
  With the first two blocks of the scenario alone, the savings reach the overflow of
  4000 after two blocks walked, and the swap count is 1.
\<close>

theorem C2_counterexample:
  "cumulativeSavings scenarioCache (take 2 scenarioBlocks) 1 < 4000
   \<and> 4000 \<le> cumulativeSavings scenarioCache (take 2 scenarioBlocks) 2
   \<and> snd (planWalk scenarioCache 4000 (take 2 scenarioBlocks) 0 0 0) = 2
   \<and> swapCount scenarioCache 4000 (take 2 scenarioBlocks) = 1"
  by (simp add: cumulativeSavings_def scenarioBlocks_def scenario_savings swapCount_def)

subsection \<open>C4: a block of a completed turn\<close>

text \<open>
  C4, as the code has it. \<open>queueBlock\<close> does nothing when the engine is disabled,
  when the compression capability is unavailable, or when the hash of the block is
  cached. Otherwise a block shorter than the minimum-compress threshold is cached as it
  is, with equal raw and compressed token counts, and is not archived. Otherwise the
  block is put on the queue and the queue is drained at once: its raw text is archived
  under its hash unless that file exists, the compression capability is not invoked and
  the cache is left as it was (stated for the empty queue that every call leaves behind).
\<close>

theorem C4_queueBlock:
  "(\<not> enabled (config st) \<or> \<not> capable st \<or> messageCache st (block_hash blk) \<noteq> None
      \<longrightarrow> queueBlock blk st = st)
   \<and> (enabled (config st) \<and> capable st \<and> messageCache st (block_hash blk) = None
        \<and> length (block_text blk) < minCompressChars (config st)
      \<longrightarrow> queueBlock blk st =
            st\<lparr> messageCache := (messageCache st)(block_hash blk \<mapsto>
                  \<lparr> compressed = block_text blk, tokensRaw = block_tokens blk,
                    tokensCompressed = block_tokens blk \<rparr>) \<rparr>)
   \<and> (enabled (config st) \<and> capable st \<and> messageCache st (block_hash blk) = None
        \<and> minCompressChars (config st) \<le> length (block_text blk)
        \<and> compressionQueue st = []
      \<longrightarrow> messageCache (queueBlock blk st) = messageCache st
          \<and> compressionQueue (queueBlock blk st) = []
          \<and> rawArchive (queueBlock blk st) =
              (if rawArchive st (block_hash blk @ ''.md'') = None
               then (rawArchive st)(block_hash blk @ ''.md'' \<mapsto> block_text blk)
               else rawArchive st))"
proof (intro conjI impI)
  assume "\<not> enabled (config st) \<or> \<not> capable st \<or> messageCache st (block_hash blk) \<noteq> None"
  then show "queueBlock blk st = st" by (auto simp: queueBlock_def)
next
  assume "enabled (config st) \<and> capable st \<and> messageCache st (block_hash blk) = None
        \<and> length (block_text blk) < minCompressChars (config st)"
  then show "queueBlock blk st =
            st\<lparr> messageCache := (messageCache st)(block_hash blk \<mapsto>
                  \<lparr> compressed = block_text blk, tokensRaw = block_tokens blk,
                    tokensCompressed = block_tokens blk \<rparr>) \<rparr>"
    by (simp add: queueBlock_def)
next
  assume a: "enabled (config st) \<and> capable st \<and> messageCache st (block_hash blk) = None
        \<and> minCompressChars (config st) \<le> length (block_text blk)
        \<and> compressionQueue st = []"
  then have "\<not> length (block_text blk) < minCompressChars (config st)" by simp
  from queueBlock_long [OF _ _ _ this] a
  show "messageCache (queueBlock blk st) = messageCache st"
    "compressionQueue (queueBlock blk st) = []"
    "rawArchive (queueBlock blk st) =
              (if rawArchive st (block_hash blk @ ''.md'') = None
               then (rawArchive st)(block_hash blk @ ''.md'' \<mapsto> block_text blk)
               else rawArchive st)"
    by simp_all
qed

text \<open>
  A block of 25 characters against a threshold of 20, in a state with the capability
  and nothing stored: it is archived and not cached.
\<close>

theorem C4_witness:
  "enabled (config smallState) \<and> capable smallState
   \<and> messageCache smallState (block_hash (turnBlock 0 ''e0'' ''0123456789012345'')) = None
   \<and> minCompressChars (config smallState)
        \<le> length (block_text (turnBlock 0 ''e0'' ''0123456789012345''))
   \<and> messageCache (queueBlock (turnBlock 0 ''e0'' ''0123456789012345'') smallState) = Map.empty
   \<and> rawArchive (queueBlock (turnBlock 0 ''e0'' ''0123456789012345'') smallState)
       = [humanText ''0123456789012345'' @ ''.md'' \<mapsto> humanText ''0123456789012345'']"
  using C4_queueBlock [of smallState "turnBlock 0 ''e0'' ''0123456789012345''"]
  by simp

text \<open>
  The block of 25 characters is new and not cached, and no cache entry is produced
  for its hash; the block of 11 characters is new and its text is not archived.
\<close>

theorem C4_counterexample:
  "messageCache smallState (block_hash (turnBlock 0 ''e0'' ''0123456789012345'')) = None
   \<and> messageCache (queueBlock (turnBlock 0 ''e0'' ''0123456789012345'') smallState)
       (block_hash (turnBlock 0 ''e0'' ''0123456789012345'')) = None
   \<and> length (block_text (turnBlock 1 ''e1'' ''hi'')) < minCompressChars (config smallState)
   \<and> rawArchive (queueBlock (turnBlock 1 ''e1'' ''hi'') smallState)
       (block_hash (turnBlock 1 ''e1'' ''hi'') @ ''.md'') = None"
proof -
  have "messageCache (queueBlock (turnBlock 0 ''e0'' ''0123456789012345'') smallState)
          = messageCache smallState"
    by (rule queueBlock_long [THEN conjunct1]) simp_all
  moreover have "rawArchive (queueBlock (turnBlock 1 ''e1'' ''hi'') smallState) = Map.empty"
    by (simp add: queueBlock_def)
  ultimately show ?thesis by simp
qed

subsection \<open>C8: what a cache entry holds\<close>

text \<open>
  C8. A cache entry is created by \<open>queueBlock\<close> for a short block of a completed
  turn, and by the compaction handler for a swapped block that was not cached. In both
  cases the compressed token count of the entry is at most its raw token count, and the
  text of the entry is the text of the block when that text is shorter than the
  minimum-compress threshold, or when the provider answers with a text whose token
  count is at least 0.95 times that of the block (or does not answer).
\<close>

theorem C8_cache_entries:
  "(messageCache (queueBlock blk st) h = Some e \<and> messageCache st h \<noteq> Some e
      \<longrightarrow> h = block_hash blk \<and> length (block_text blk) < minCompressChars (config st)
          \<and> compressed e = block_text blk \<and> tokensCompressed e \<le> tokensRaw e)
   \<and> (handleBeforeCompact pf ev evt st = Some (r, st') \<and> messageCache st' h = Some e
        \<and> messageCache st h \<noteq> Some e
      \<longrightarrow> (\<exists>allBlocks.
            groupEntriesIntoBlocks pf (config st) (branchEntries evt)
                (startIdxOf (branchEntries evt)) = Some allBlocks
            \<and> (\<exists>b \<in> set allBlocks. h = block_hash b
                  \<and> tokensCompressed e \<le> tokensRaw e
                  \<and> (length (block_text b) < minCompressChars (config st)
                       \<or> (\<forall>c. provider ev (block_text b) = Reply c \<longrightarrow>
                             19 * estimateTokens (block_text b) \<le> 20 * estimateTokens c)
                     \<longrightarrow> compressed e = block_text b))))"
proof (rule conjI; rule impI)
  assume a: "messageCache (queueBlock blk st) h = Some e \<and> messageCache st h \<noteq> Some e"
  then have "messageCache (queueBlock blk st) h = Some e" "messageCache st h \<noteq> Some e"
    by simp_all
  from queueBlock_cache [OF this]
  show "h = block_hash blk \<and> length (block_text blk) < minCompressChars (config st)
          \<and> compressed e = block_text blk \<and> tokensCompressed e \<le> tokensRaw e"
    by simp
next
  assume a: "handleBeforeCompact pf ev evt st = Some (r, st') \<and> messageCache st' h = Some e
        \<and> messageCache st h \<noteq> Some e"
  then have "handleBeforeCompact pf ev evt st = Some (r, st')" "messageCache st' h = Some e"
    "messageCache st h \<noteq> Some e"
    by simp_all
  from handler_cache [OF this] obtain allBlocks b where
    grp: "groupEntriesIntoBlocks pf (config st) (branchEntries evt)
                (startIdxOf (branchEntries evt)) = Some allBlocks"
    and b: "b \<in> set (eligibleBlocks (config st) allBlocks)" "h = block_hash b"
      "e = onDemandResult ev st b"
    by blast
  from b(1) have "b \<in> set allBlocks" by (simp add: eligibleBlocks_def)
  with grp b(2) onDemandResult_props [of ev st b, folded b(3)]
  show "\<exists>allBlocks.
            groupEntriesIntoBlocks pf (config st) (branchEntries evt)
                (startIdxOf (branchEntries evt)) = Some allBlocks
            \<and> (\<exists>b \<in> set allBlocks. h = block_hash b
                  \<and> tokensCompressed e \<le> tokensRaw e
                  \<and> (length (block_text b) < minCompressChars (config st)
                       \<or> (\<forall>c. provider ev (block_text b) = Reply c \<longrightarrow>
                             19 * estimateTokens (block_text b) \<le> 20 * estimateTokens c)
                     \<longrightarrow> compressed e = block_text b))"
    by blast
qed

text \<open>
  A block of 11 characters against a threshold of 20 is cached as it is by
  \<open>queueBlock\<close>; the request of four turns, whose compressions fail, stores the raw
  text of its first block with equal token counts.
\<close>

theorem C8_witness:
  "messageCache (queueBlock (turnBlock 1 ''e1'' ''hi'') smallState) (humanText ''hi'')
     = Some \<lparr> compressed = humanText ''hi'', tokensRaw = 3, tokensCompressed = 3 \<rparr>
   \<and> messageCache smallState (humanText ''hi'') = None
   \<and> length (block_text (turnBlock 1 ''e1'' ''hi'')) < minCompressChars (config smallState)
   \<and> handleBeforeCompact referencePlatform failingEnv smallEvent smallState
       = Some (Compaction (renderHistory referencePlatform smallHistory) ''e3'' 105, smallResult)
   \<and> messageCache smallResult (humanText ''0123456789012345'')
       = Some (rawEntry (humanText ''0123456789012345''))
   \<and> messageCache smallState (humanText ''0123456789012345'') = None
   \<and> tokensCompressed (rawEntry (humanText ''0123456789012345''))
       \<le> tokensRaw (rawEntry (humanText ''0123456789012345''))"
proof -
  have q: "messageCache (queueBlock (turnBlock 1 ''e1'' ''hi'') smallState) (humanText ''hi'')
     = Some \<lparr> compressed = humanText ''hi'', tokensRaw = 3, tokensCompressed = 3 \<rparr>"
    by (simp add: queueBlock_def)
  from C8_cache_entries [where blk = "turnBlock 1 ''e1'' ''hi''" and st = smallState
      and h = "humanText ''hi''"
      and e = "\<lparr> compressed = humanText ''hi'', tokensRaw = 3, tokensCompressed = 3 \<rparr>",
      THEN conjunct1] q
  have short: "length (block_text (turnBlock 1 ''e1'' ''hi'')) < minCompressChars (config smallState)"
    by simp
  from C8_cache_entries [where pf = referencePlatform and ev = failingEnv and evt = smallEvent
      and st = smallState and st' = smallResult and h = "humanText ''0123456789012345''"
      and e = "rawEntry (humanText ''0123456789012345'')"
      and r = "Compaction (renderHistory referencePlatform smallHistory) ''e3'' 105",
      THEN conjunct2] smallRun smallResult_cache
  have "tokensCompressed (rawEntry (humanText ''0123456789012345''))
       \<le> tokensRaw (rawEntry (humanText ''0123456789012345''))"
    by simp
  with q short smallRun smallResult_cache show ?thesis by simp
qed

subsection \<open>C3: the most recent block stays raw\<close>



subsection \<open>C10: blocks below the swap threshold\<close>

text \<open>
  C10. When the handler returns a replacement payload, the planner has worked on the
  eligible blocks only, the blocks of at least \<open>minSwapTokens\<close> tokens; the resume
  marker is the first entry of the eligible block that follows the swapped ones, and the
  payload is the rendered history, whose new entry is built from the swapped blocks. A
  block below the threshold is not eligible and not swapped; its entries that precede
  the marker are not in the region kept raw from the marker on; and all its entries
  precede the marker when the block lies before the marker block in the segmentation
  and is not a fragment of the marker's entry.
\<close>

theorem C10_small_blocks_dropped:
  assumes run: "handleBeforeCompact pf ev evt st = Some (Compaction s fk tb, st')"
  shows "\<exists>allBlocks blocks k marker.
      groupEntriesIntoBlocks pf (config st) (branchEntries evt)
          (startIdxOf (branchEntries evt)) = Some allBlocks
      \<and> blocks = eligibleBlocks (config st) allBlocks
      \<and> k = swapCount (messageCache st) (overflowOf (config st) evt) blocks
      \<and> k < length blocks \<and> marker = blocks ! k \<and> fk = firstEntryId marker
      \<and> s = renderHistory pf (compactionHistory st')
      \<and> (\<exists>hist kE. compactionHistory st'
            = drop kE (hist @ [roundEntry ev st (take k blocks)]))
      \<and> (\<forall>b \<in> set allBlocks. block_tokens b < minTokensOf (config st) \<longrightarrow>
            b \<notin> set blocks \<and> b \<notin> set (take k blocks)
            \<and> (\<forall>e \<in> set (entries b). index e < firstEntryIndex marker \<longrightarrow>
                  e \<notin> set (rawRegion marker
                             (spanEntries (branchEntries evt) (startIdxOf (branchEntries evt)))))
            \<and> (\<forall>A B. allBlocks = A @ b # B \<and> marker \<in> set B
                    \<and> firstEntryIndex b \<noteq> firstEntryIndex marker \<longrightarrow>
                  (\<forall>e \<in> set (entries b). index e < firstEntryIndex marker)))"
proof -
  let ?span = "spanEntries (branchEntries evt) (startIdxOf (branchEntries evt))"
  from handler_span [OF run] obtain allBlocks where
    grp: "groupEntriesIntoBlocks pf (config st) (branchEntries evt)
            (startIdxOf (branchEntries evt)) = Some allBlocks"
    and cov: "covers pf allBlocks ?span"
    and hist: "\<exists>hist kE. compactionHistory st' = drop kE (hist @
            [roundEntry ev st
               (take (swapCount (messageCache st) (overflowOf (config st) evt)
                        (eligibleBlocks (config st) allBlocks))
                     (eligibleBlocks (config st) allBlocks))])"
    and s: "s = renderHistory pf (compactionHistory st')"
    by blast
  let ?blocks = "eligibleBlocks (config st) allBlocks"
  let ?k = "swapCount (messageCache st) (overflowOf (config st) evt) ?blocks"
  let ?marker = "?blocks ! ?k"
  from handler_plan [OF run] grp
  have k: "?k < length ?blocks" and fk: "fk = firstEntryId ?marker"
    by simp_all
  have sorted: "sorted_wrt (<) (map index ?span)"
    unfolding spanEntries_def by (rule conversationEntries_sorted)
  have small: "\<forall>b \<in> set allBlocks. block_tokens b < minTokensOf (config st) \<longrightarrow>
            b \<notin> set ?blocks \<and> b \<notin> set (take ?k ?blocks)
            \<and> (\<forall>e \<in> set (entries b). index e < firstEntryIndex ?marker \<longrightarrow>
                  e \<notin> set (rawRegion ?marker ?span))
            \<and> (\<forall>A B. allBlocks = A @ b # B \<and> ?marker \<in> set B
                    \<and> firstEntryIndex b \<noteq> firstEntryIndex ?marker \<longrightarrow>
                  (\<forall>e \<in> set (entries b). index e < firstEntryIndex ?marker))"
  proof (intro ballI impI conjI allI)
    fix b :: eblock assume b: "block_tokens b < minTokensOf (config st)"
    then show nb: "b \<notin> set ?blocks" by (simp add: eligibleBlocks_def)
    then show "b \<notin> set (take ?k ?blocks)" by (auto dest: in_set_takeD)
  next
    fix e :: ientry assume "index e < firstEntryIndex ?marker"
    then show "e \<notin> set (rawRegion ?marker ?span)" by (simp add: rawRegion_def)
  next
    fix b :: eblock and A B and e :: ientry
    assume "allBlocks = A @ b # B \<and> ?marker \<in> set B
        \<and> firstEntryIndex b \<noteq> firstEntryIndex ?marker" and e: "e \<in> set (entries b)"
    then have "allBlocks = A @ b # B" "?marker \<in> set B"
      "firstEntryIndex b \<noteq> firstEntryIndex ?marker"
      by blast+
    from covers_order [OF cov sorted this e]
    show "index e < firstEntryIndex ?marker" .
  qed
  from grp k fk s hist small show ?thesis by blast
qed

text \<open>
  In the request of four turns the second block has 3 tokens against a threshold of 6:
  it is not swapped, the marker is the fourth entry, and the payload holds the texts
  of the first and the third block.
\<close>

theorem C10_witness:
  "handleBeforeCompact referencePlatform failingEnv smallEvent smallState
     = Some (Compaction (renderHistory referencePlatform smallHistory) ''e3'' 105, smallResult)
   \<and> block_tokens (turnBlock 1 ''e1'' ''hi'') < minTokensOf (config smallState)
   \<and> turnBlock 1 ''e1'' ''hi''
       \<notin> set [turnBlock 0 ''e0'' ''0123456789012345'', turnBlock 2 ''e2'' ''abcdefghijklmnop'']
   \<and> \<lparr> index = 1, id_e = ''e1'', message = userMsg ''hi'' \<rparr>
       \<notin> set (rawRegion (turnBlock 3 ''e3'' ''ABCDEFGHIJKLMNOP'') (spanEntries fourTurns 0))
   \<and> map compressed smallHistory
       = [humanText ''0123456789012345'' @ separator @ humanText ''abcdefghijklmnop'']"
proof -
  from C10_small_blocks_dropped [OF smallRun]
  obtain allBlocks blocks k marker where
    grp: "groupEntriesIntoBlocks referencePlatform (config smallState) (branchEntries smallEvent)
             (startIdxOf (branchEntries smallEvent)) = Some allBlocks"
    and blocks: "blocks = eligibleBlocks (config smallState) allBlocks"
    and k: "k = swapCount (messageCache smallState) (overflowOf (config smallState) smallEvent)
                  blocks"
    and marker: "marker = blocks ! k"
    and small: "\<forall>b \<in> set allBlocks. block_tokens b < minTokensOf (config smallState) \<longrightarrow>
            b \<notin> set blocks \<and> b \<notin> set (take k blocks)
            \<and> (\<forall>e \<in> set (entries b). index e < firstEntryIndex marker \<longrightarrow>
                  e \<notin> set (rawRegion marker
                     (spanEntries (branchEntries smallEvent)
                        (startIdxOf (branchEntries smallEvent)))))"
    by blast
  from grp have all: "allBlocks =
      [turnBlock 0 ''e0'' ''0123456789012345'', turnBlock 1 ''e1'' ''hi'',
       turnBlock 2 ''e2'' ''abcdefghijklmnop'', turnBlock 3 ''e3'' ''ABCDEFGHIJKLMNOP'']"
    by (simp add: fourTurns_start fourTurns_blocks)
  with blocks have b: "blocks =
      [turnBlock 0 ''e0'' ''0123456789012345'', turnBlock 2 ''e2'' ''abcdefghijklmnop'',
       turnBlock 3 ''e3'' ''ABCDEFGHIJKLMNOP'']"
    by (simp only: smallState_fields fourTurns_eligible)
  with k have k2: "k = 2" by (simp add: smallPlan)
  from b k2 marker have tk: "take k blocks =
      [turnBlock 0 ''e0'' ''0123456789012345'', turnBlock 2 ''e2'' ''abcdefghijklmnop'']"
    and m: "marker = turnBlock 3 ''e3'' ''ABCDEFGHIJKLMNOP''"
    by simp_all
  have tiny: "block_tokens (turnBlock 1 ''e1'' ''hi'') < minTokensOf (config smallState)"
    by simp
  have "turnBlock 1 ''e1'' ''hi'' \<in> set allBlocks" unfolding all by simp
  with small tiny
  have "turnBlock 1 ''e1'' ''hi'' \<notin> set (take k blocks)
     \<and> (\<forall>e \<in> set (entries (turnBlock 1 ''e1'' ''hi'')). index e < firstEntryIndex marker \<longrightarrow>
                  e \<notin> set (rawRegion marker
                     (spanEntries (branchEntries smallEvent)
                        (startIdxOf (branchEntries smallEvent)))))"
    by blast
  then have "turnBlock 1 ''e1'' ''hi''
       \<notin> set [turnBlock 0 ''e0'' ''0123456789012345'', turnBlock 2 ''e2'' ''abcdefghijklmnop'']"
    and "\<lparr> index = 1, id_e = ''e1'', message = userMsg ''hi'' \<rparr>
       \<notin> set (rawRegion (turnBlock 3 ''e3'' ''ABCDEFGHIJKLMNOP'') (spanEntries fourTurns 0))"
    unfolding tk m by (simp_all add: fourTurns_start)
  with tiny smallRun show ?thesis by (simp add: smallHistory_def)
qed

subsection \<open>C6: a compression call that fails\<close>




end
